theory Spec2Isabelle
  imports Main "HOL-Library.AList"
begin

section \<open>JSON values and the JavaScript operations the scripts apply to them\<close>

text \<open>
  The scripts work on the values \<open>JSON.parse\<close> returns. A number is modelled as an
  integer (the registry's numbers are download counts); an object is the list of its
  members in property order. Reading a member is \<open>map_of\<close>, writing one is
  \<open>AList.update\<close>: an existing member is overwritten in place, a new one is appended.
  A value that may be \<open>undefined\<close> is a \<open>json option\<close>, \<open>None\<close> being \<open>undefined\<close>.
\<close>

datatype json =
    JNull
  | JBool bool
  | JNum int
  | JStr string
  | JArr "json list"
  | JObj "(string \<times> json) list"

type_synonym object = "(string \<times> json) list"
type_synonym jsvalue = "json option"

text \<open>Truthiness, as \<open>if (v)\<close>, \<open>!v\<close> and \<open>v || w\<close> decide it.\<close>

fun truthy :: "jsvalue \<Rightarrow> bool" where
  "truthy None = False"
| "truthy (Some JNull) = False"
| "truthy (Some (JBool b)) = b"
| "truthy (Some (JNum n)) = (n \<noteq> 0)"
| "truthy (Some (JStr s)) = (s \<noteq> [])"
| "truthy (Some (JArr xs)) = True"
| "truthy (Some (JObj ms)) = True"

text \<open>\<open>v ?? d\<close>: the default replaces \<open>undefined\<close> and \<open>null\<close> only.\<close>

fun nullish :: "jsvalue \<Rightarrow> json \<Rightarrow> json" where
  "nullish None d = d"
| "nullish (Some JNull) d = d"
| "nullish (Some v) d = v"

text \<open>\<open>v || d\<close>: the default replaces every falsy value.\<close>

definition or_else :: "jsvalue \<Rightarrow> json \<Rightarrow> json" where
  "or_else v d = (if truthy v then the v else d)"

text \<open>
  Arrays and objects are compared by reference; \<open>undefined\<close>, \<open>null\<close>, booleans, numbers
  and strings by value.
\<close>

fun primitive :: "jsvalue \<Rightarrow> bool" where
  "primitive (Some (JArr xs)) = False"
| "primitive (Some (JObj ms)) = False"
| "primitive v = True"

text \<open>
  \<open>a === b\<close>, and the SameValueZero comparison of \<open>Map\<close> keys, for two values that
  are not one and the same object: two distinct arrays or objects are never equal, and
  JSON has no \<open>NaN\<close>.
\<close>

definition strict_equals :: "jsvalue \<Rightarrow> jsvalue \<Rightarrow> bool" where
  "strict_equals a b = (primitive a \<and> a = b)"

section \<open>Registry documents and files\<close>

text \<open>
  A registry document is a JSON object; its \<open>plugins\<close> member, when present, is an
  array of plugin objects whose members are arbitrary JSON. \<open>rest\<close> holds the other
  top-level members.
\<close>

record document =
  plugins :: "object list option"
  rest :: object

text \<open>
  What \<open>JSON.parse(readFileSync(file, 'utf-8'))\<close> meets at a path: no file, a text that
  is not JSON, or a registry document.
\<close>

datatype disk_file = Missing | Unparseable | Parsed document

type_synonym filesystem = "string \<Rightarrow> disk_file"

text \<open>
  How a piece of code ends: with a value, with an exception thrown to its caller, or by
  \<open>process.exit\<close>, which ends the process where it stands.
\<close>

datatype 'a completion = Normal 'a | Throw string | Exit nat

section \<open>The merge script (\<open>scripts/merge-plugins.mjs\<close>)\<close>

datatype message =
    UsageError
  | ReadFailed string
  | StoreTreatedAsEmpty
  | MergeDone

text \<open>\<open>!MAIN_FILE\<close>: an unset variable and the empty string are both falsy.\<close>

definition unset :: "string option \<Rightarrow> bool" where
  "unset v = (case v of None \<Rightarrow> True | Some s \<Rightarrow> s = [])"

definition read_and_parse :: "filesystem \<Rightarrow> string \<Rightarrow> document completion" where
  "read_and_parse fs file =
     (case fs file of
        Missing \<Rightarrow> Throw ''ENOENT''
      | Unparseable \<Rightarrow> Throw ''SyntaxError''
      | Parsed d \<Rightarrow> Normal d)"

text \<open>
  \<open>readJSON\<close> catches every exception of the read itself, prints it and calls
  \<open>process.exit(1)\<close>. The result carries the lines printed.
\<close>

definition readJSON :: "filesystem \<Rightarrow> string \<Rightarrow> message list \<times> document completion" where
  "readJSON fs file =
     (case read_and_parse fs file of
        Normal d \<Rightarrow> ([], Normal d)
      | Throw err \<Rightarrow> ([ReadFailed file], Exit 1)
      | Exit c \<Rightarrow> ([], Exit c))"

text \<open>
  \<open>storePluginMap\<close> is a \<open>Map\<close>. A key that is an array or an object is a fresh
  reference that no later \<open>has\<close> or \<open>get\<close> can present again, so only primitive keys are
  kept.
\<close>

type_synonym plugin_map = "jsvalue \<rightharpoonup> json"

definition Map_set :: "plugin_map \<Rightarrow> jsvalue \<Rightarrow> json \<Rightarrow> plugin_map" where
  "Map_set m k v = (if primitive k then m(k \<mapsto> v) else m)"

definition Map_has :: "plugin_map \<Rightarrow> jsvalue \<Rightarrow> bool" where
  "Map_has m k = (m k \<noteq> None)"

definition Map_get :: "plugin_map \<Rightarrow> jsvalue \<Rightarrow> json" where
  "Map_get m k = the (m k)"

definition storePluginMap :: "document \<Rightarrow> plugin_map" where
  "storePluginMap storeData =
     (case plugins storeData of
        None \<Rightarrow> Map.empty
      | Some store_plugins \<Rightarrow>
          fold (\<lambda>p m. Map_set m (map_of p ''id'') (nullish (map_of p ''downloadCount'') (JNum 0)))
            store_plugins Map.empty)"

definition merged :: "plugin_map \<Rightarrow> object \<Rightarrow> object" where
  "merged m mainPlugin =
     AList.update ''downloadCount''
       (if Map_has m (map_of mainPlugin ''id'') then Map_get m (map_of mainPlugin ''id'')
        else JNum 0)
       mainPlugin"

definition mergedPlugins :: "document \<Rightarrow> document \<Rightarrow> object list" where
  "mergedPlugins mainData storeData =
     (case plugins mainData of
        None \<Rightarrow> []
      | Some main_plugins \<Rightarrow> map (merged (storePluginMap storeData)) main_plugins)"

record run =
  console :: "message list"
  exit_code :: nat
  written :: "(string \<times> document) option"

text \<open>
  The script from its first statement to its last. The second \<open>readJSON\<close> call stands
  in a \<open>try\<close> whose \<open>catch\<close> prints a warning and keeps \<open>{ plugins: [] }\<close>.
\<close>

definition merge_plugins ::
  "string option \<Rightarrow> string option \<Rightarrow> string option \<Rightarrow> filesystem \<Rightarrow> run" where
  "merge_plugins MAIN_FILE STORE_FILE OUTPUT_FILE fs =
     (if unset MAIN_FILE \<or> unset STORE_FILE \<or> unset OUTPUT_FILE
      then \<lparr>console = [UsageError], exit_code = 1, written = None\<rparr>
      else
        (case readJSON fs (the MAIN_FILE) of
           (out1, Exit c) \<Rightarrow> \<lparr>console = out1, exit_code = c, written = None\<rparr>
         | (out1, Throw err) \<Rightarrow> \<lparr>console = out1, exit_code = 1, written = None\<rparr>
         | (out1, Normal mainData) \<Rightarrow>
             (case readJSON fs (the STORE_FILE) of
                (out2, Exit c) \<Rightarrow> \<lparr>console = out1 @ out2, exit_code = c, written = None\<rparr>
              | (out2, r) \<Rightarrow>
                  (let (out3, storeData) =
                         (case r of
                            Normal d \<Rightarrow> ([], d)
                          | _ \<Rightarrow> ([StoreTreatedAsEmpty], \<lparr>plugins = Some [], rest = []\<rparr>))
                   in \<lparr>console = out1 @ out2 @ out3 @ [MergeDone],
                       exit_code = 0,
                       written =
                         Some (the OUTPUT_FILE,
                               mainData\<lparr>plugins := Some (mergedPlugins mainData storeData)\<rparr>)\<rparr>))))"

text \<open>
  The later version of the script takes each path from the command line (\<open>--main\<close>,
  \<open>--store\<close>, \<open>--output\<close>) and falls back to the environment variable.
\<close>

definition fallback :: "string option \<Rightarrow> string option \<Rightarrow> string option" where
  "fallback cli env = (if unset cli then env else cli)"

definition merge_plugins_cli ::
  "string option \<Rightarrow> string option \<Rightarrow> string option \<Rightarrow>
   string option \<Rightarrow> string option \<Rightarrow> string option \<Rightarrow> filesystem \<Rightarrow> run" where
  "merge_plugins_cli main store output MAIN_FILE STORE_FILE OUTPUT_FILE fs =
     merge_plugins (fallback main MAIN_FILE) (fallback store STORE_FILE)
       (fallback output OUTPUT_FILE) fs"

section \<open>The download-count script\<close>

subsection \<open>Resolving a download URL\<close>

text \<open>
  \<open>new URL(x)\<close> belongs to the platform and is a parameter of the model: it gives the
  host name and the path of an absolute URL and \<open>None\<close> where the constructor throws
  (also for an \<open>x\<close> that is not a string).
\<close>

type_synonym url_parser = "jsvalue \<Rightarrow> (string \<times> string) option"

record repo_info =
  owner :: string
  repo :: string

text \<open>\<open>s.split(c)\<close> for a one-character separator.\<close>

fun split :: "char \<Rightarrow> string \<Rightarrow> string list" where
  "split c [] = [[]]"
| "split c (x # xs) =
     (if x = c then [] # split c xs
      else (case split c xs of [] \<Rightarrow> [[x]] | w # ws \<Rightarrow> (x # w) # ws))"

definition extractGitHubRepo :: "url_parser \<Rightarrow> jsvalue \<Rightarrow> repo_info option" where
  "extractGitHubRepo URL downloadUrl =
     (case URL downloadUrl of
        None \<Rightarrow> None
      | Some (hostname, pathname) \<Rightarrow>
          if hostname \<noteq> ''github.com'' then None
          else
            (let parts = filter (\<lambda>p. p \<noteq> []) (split CHR ''/'' pathname)
             in if length parts < 2 then None
                else Some \<lparr>owner = parts ! 0, repo = parts ! 1\<rparr>))"

subsection \<open>The network\<close>

text \<open>
  The releases a repository reports, as the hosting provider's API types them: a release
  may lack \<open>assets\<close>, an asset may lack \<open>download_count\<close>.
\<close>

record asset =
  download_count :: "int option"

record release =
  assets :: "asset list option"

record request =
  url :: string
  headers :: "(string \<times> string) list"

text \<open>
  One \<open>fetch\<close> either rejects (with the message of its error) or gives a response:
  status, status text and body. The body is the release list, or the message of the error
  \<open>res.json()\<close> rejects with.
\<close>

datatype fetched =
    Rejected string
  | Response nat string "string + release list"

text \<open>
  What the script does to the outside world, in order. The network decides each answer
  from everything that happened before, so that the model covers every behaviour of the
  remote side.
\<close>

datatype event = Request request | Delay nat

type_synonym network = "event list \<Rightarrow> request \<Rightarrow> fetched"

text \<open>
  The errors a plugin's result can carry. The first two messages are non-empty literals of
  the script; the third is whatever message the platform's error has.
\<close>

datatype failure =
    NoRepoInfo
  | ApiStatus nat string
  | Platform string

fun message_truthy :: "failure \<Rightarrow> bool" where
  "message_truthy NoRepoInfo = True"
| "message_truthy (ApiStatus status statusText) = True"
| "message_truthy (Platform msg) = (msg \<noteq> [])"

definition GITHUB_API_BASE :: string where
  "GITHUB_API_BASE = ''https://api.github.com''"

definition CONCURRENCY :: nat where
  "CONCURRENCY = 5"

definition RETRY_TIMES :: nat where
  "RETRY_TIMES = 2"

definition RETRY_DELAY :: nat where
  "RETRY_DELAY = 1000"

definition ok :: "nat \<Rightarrow> bool" where
  "ok status = (200 \<le> status \<and> status \<le> 299)"

text \<open>
  The \<open>try\<close> block of \<open>fetchWithRetry\<close>: \<open>Inl\<close> is the exception its \<open>catch\<close> receives,
  \<open>Inr\<close> the promise \<open>res.json()\<close> that the block returns without awaiting it.
\<close>

definition attempt :: "network \<Rightarrow> request \<Rightarrow> event list \<Rightarrow> failure + (string + release list)" where
  "attempt net req tr =
     (case net tr req of
        Rejected msg \<Rightarrow> Inl (Platform msg)
      | Response status statusText body \<Rightarrow>
          if \<not> ok status then Inl (ApiStatus status statusText) else Inr body)"

text \<open>
  A rejection of the returned \<open>res.json()\<close> happens outside the \<open>try\<close>, so it reaches
  the caller without a retry.
\<close>

fun fetchWithRetry ::
  "network \<Rightarrow> request \<Rightarrow> nat \<Rightarrow> event list \<Rightarrow> (failure + release list) \<times> event list" where
  "fetchWithRetry net req retry tr =
     (case attempt net req tr of
        Inr (Inr releases) \<Rightarrow> (Inr releases, tr @ [Request req])
      | Inr (Inl msg) \<Rightarrow> (Inl (Platform msg), tr @ [Request req])
      | Inl err \<Rightarrow>
          (case retry of
             Suc r \<Rightarrow> fetchWithRetry net req r (tr @ [Request req, Delay RETRY_DELAY])
           | 0 \<Rightarrow> (Inl err, tr @ [Request req])))"

text \<open>The request \<open>fetchGitHubReleases\<close> builds: the URL and the headers.\<close>

definition releases_request :: "string \<Rightarrow> string \<Rightarrow> string option \<Rightarrow> request" where
  "releases_request owner_name repo_name token =
     \<lparr>url = GITHUB_API_BASE @ ''/repos/'' @ owner_name @ ''/'' @ repo_name @ ''/releases'',
      headers =
        [(''User-Agent'', ''napcat-plugin-index''),
         (''Accept'', ''application/vnd.github.v3+json'')]
        @ (if unset token then [] else [(''Authorization'', ''token '' @ the token)])\<rparr>"

definition fetchGitHubReleases ::
  "network \<Rightarrow> string \<Rightarrow> string \<Rightarrow> string option \<Rightarrow> event list
   \<Rightarrow> (failure + release list) \<times> event list" where
  "fetchGitHubReleases net owner_name repo_name token tr =
     fetchWithRetry net (releases_request owner_name repo_name token) RETRY_TIMES tr"

text \<open>
  A result refers to the plugin object it was computed for; the model keeps the index of
  that object in \<open>plugins\<close>. \<open>None\<close> is \<open>null\<close>.
\<close>

record result =
  plugin :: nat
  count :: "int option"
  error :: "failure option"

definition totalCount :: "release list \<Rightarrow> int" where
  "totalCount releases =
     fold (\<lambda>release total.
             case assets release of
               None \<Rightarrow> total
             | Some as \<Rightarrow>
                 fold (\<lambda>asset t. t + (case download_count asset of None \<Rightarrow> 0 | Some n \<Rightarrow> n))
                   as total)
       releases 0"

definition getDownloadCountForPlugin ::
  "url_parser \<Rightarrow> network \<Rightarrow> string option \<Rightarrow> nat \<times> object \<Rightarrow> event list
   \<Rightarrow> result \<times> event list" where
  "getDownloadCountForPlugin URL net token p tr =
     (case extractGitHubRepo URL (map_of (snd p) ''downloadUrl'') of
        None \<Rightarrow> (\<lparr>plugin = fst p, count = None, error = Some NoRepoInfo\<rparr>, tr)
      | Some repoInfo \<Rightarrow>
          (case fetchGitHubReleases net (owner repoInfo) (repo repoInfo) token tr of
             (Inr releases, tr') \<Rightarrow>
               (\<lparr>plugin = fst p, count = Some (totalCount releases), error = None\<rparr>, tr')
           | (Inl err, tr') \<Rightarrow>
               (\<lparr>plugin = fst p, count = None, error = Some err\<rparr>, tr')))"

subsection \<open>The update time\<close>

text \<open>
  \<open>Date.prototype.toISOString\<close> belongs to the platform; it is written out here after
  the language standard, for a time value \<open>t\<close> in milliseconds since the epoch:
  \<open>YYYY-MM-DDTHH:mm:ss.sssZ\<close>, the year with a sign and six digits outside 0 to 9999.
\<close>

definition digit :: "int \<Rightarrow> char" where
  "digit d = ''0123456789'' ! nat d"

fun pad :: "nat \<Rightarrow> int \<Rightarrow> string" where
  "pad 0 n = []"
| "pad (Suc w) n = pad w (n div 10) @ [digit (n mod 10)]"

text \<open>Year, month and day of a day number counted from 1970-01-01.\<close>

definition civil :: "int \<Rightarrow> int \<times> int \<times> int" where
  "civil day =
     (let z = day + 719468;
          era = z div 146097;
          doe = z mod 146097;
          yoe = (doe - doe div 1460 + doe div 36524 - doe div 146096) div 365;
          doy = doe - (365 * yoe + yoe div 4 - yoe div 100);
          mp = (5 * doy + 2) div 153;
          d = doy - (153 * mp + 2) div 5 + 1;
          m = (if mp < 10 then mp + 3 else mp - 9);
          y = yoe + era * 400 + (if m \<le> 2 then 1 else 0)
      in (y, m, d))"

definition year_string :: "int \<Rightarrow> string" where
  "year_string y =
     (if 0 \<le> y \<and> y \<le> 9999 then pad 4 y
      else (if y < 0 then ''-'' else ''+'') @ pad 6 \<bar>y\<bar>)"

definition date_time :: "int \<Rightarrow> string" where
  "date_time t =
     (case civil (t div 86400000) of
        (y, m, d) \<Rightarrow>
          year_string y @ ''-'' @ pad 2 m @ ''-'' @ pad 2 d @ ''T''
          @ pad 2 (t div 3600000 mod 24) @ '':'' @ pad 2 (t div 60000 mod 60) @ '':''
          @ pad 2 (t div 1000 mod 60))"

definition toISOString :: "int \<Rightarrow> string" where
  "toISOString t = date_time t @ ''.'' @ pad 3 (t mod 1000) @ ''Z''"

definition is_digit :: "char \<Rightarrow> bool" where
  "is_digit c = (c \<in> set ''0123456789'')"

text \<open>\<open>s.replace(/\.\d{3}Z$/, '+08:00')\<close>: the pattern can only match the last five characters.\<close>

definition replace_ms_Z :: "string \<Rightarrow> string" where
  "replace_ms_Z s =
     (let n = length s in
      if 5 \<le> n \<and> s ! (n - 5) = CHR ''.'' \<and> is_digit (s ! (n - 4)) \<and> is_digit (s ! (n - 3))
         \<and> is_digit (s ! (n - 2)) \<and> s ! (n - 1) = CHR ''Z''
      then take (n - 5) s @ ''+08:00''
      else s)"

definition getBeijingTime :: "int \<Rightarrow> string" where
  "getBeijingTime now = replace_ms_Z (toISOString (now + 8 * 60 * 60 * 1000))"

subsection \<open>Fetching in batches\<close>

text \<open>
  \<open>Promise.all\<close> over the tasks of one batch. The tasks of a batch run interleaved; the
  model settles them one after another, each continuing the trace of the one before.
\<close>

fun Promise_all :: "('s \<Rightarrow> 'a \<times> 's) list \<Rightarrow> 's \<Rightarrow> 'a list \<times> 's" where
  "Promise_all [] s = ([], s)"
| "Promise_all (task # tasks) s =
     (case task s of
        (r, s1) \<Rightarrow> (case Promise_all tasks s1 of (rs, s2) \<Rightarrow> (r # rs, s2)))"

text \<open>\<open>plugins.slice(i, j)\<close>, each element with its index.\<close>

definition slice :: "object list \<Rightarrow> nat \<Rightarrow> nat \<Rightarrow> (nat \<times> object) list" where
  "slice xs i j = map (\<lambda>k. (k, xs ! k)) [i..<min j (length xs)]"

function fetch_loop ::
  "url_parser \<Rightarrow> network \<Rightarrow> string option \<Rightarrow> object list \<Rightarrow> nat \<Rightarrow> result list \<Rightarrow> event list
   \<Rightarrow> result list \<times> event list" where
  "fetch_loop URL net token plugin_list i results tr =
     (if i < length plugin_list
      then
        (let batch = slice plugin_list i (i + CONCURRENCY) in
         case Promise_all (map (getDownloadCountForPlugin URL net token) batch) tr of
           (batchResults, tr') \<Rightarrow>
             fetch_loop URL net token plugin_list (i + CONCURRENCY) (results @ batchResults) tr')
      else (results, tr))"
  by pat_completeness auto
termination
  by (relation "measure (\<lambda>(URL, net, token, plugin_list, i, results, tr). length plugin_list - i)")
     (auto simp: CONCURRENCY_def)

subsection \<open>Writing the results back\<close>

record state =
  current :: "object list"
  downloadCountUpdated :: nat
  hasAnyChange :: bool

text \<open>
  \<open>plugins.findIndex(p => p.id === plugin.id)\<close> for the plugin object at index \<open>k\<close>:
  that object's own \<open>id\<close> is identical to itself whatever it is; another object's \<open>id\<close>
  is compared as \<open>===\<close> compares two values.
\<close>

definition findIndex :: "object list \<Rightarrow> nat \<Rightarrow> nat option" where
  "findIndex plugin_list k =
     find (\<lambda>j. j = k \<or> strict_equals (map_of (plugin_list ! j) ''id'') (map_of (plugin_list ! k) ''id''))
       [0..<length plugin_list]"

definition js_count :: "result \<Rightarrow> json" where
  "js_count r = (case count r of None \<Rightarrow> JNull | Some c \<Rightarrow> JNum c)"

text \<open>\<open>if (error)\<close>: \<open>null\<close> and the empty message are falsy.\<close>

definition has_error :: "result \<Rightarrow> bool" where
  "has_error r = (case error r of None \<Rightarrow> False | Some e \<Rightarrow> message_truthy e)"

text \<open>One pass of the loop over \<open>results\<close>.\<close>

definition apply_result :: "bool \<Rightarrow> string \<Rightarrow> result \<Rightarrow> state \<Rightarrow> state" where
  "apply_result updatePluginTime beijingNow r st =
     (case findIndex (current st) (plugin r) of
        None \<Rightarrow> st
      | Some pluginIndex \<Rightarrow>
          (let p = current st ! pluginIndex;
               originalCount = or_else (map_of p ''downloadCount'') (JNum 0);
               changed = (\<not> has_error r
                          \<and> \<not> strict_equals (map_of p ''downloadCount'') (Some (js_count r)));
               p1 = AList.update ''downloadCount''
                      (if has_error r then originalCount else js_count r) p;
               p2 = (if updatePluginTime then AList.update ''updateTime'' (JStr beijingNow) p1
                     else p1)
           in \<lparr>current = (current st)[pluginIndex := p2],
               downloadCountUpdated =
                 (if changed then Suc (downloadCountUpdated st) else downloadCountUpdated st),
               hasAnyChange = (hasAnyChange st \<or> changed \<or> updatePluginTime)\<rparr>))"

record outcome =
  ended :: "unit completion"
  saved :: "document option"
  trace :: "event list"
  summary :: nat

text \<open>
  \<open>updateDownloadCounts\<close> on the registry file as it stands on disk, with the clock
  reading \<open>now\<close> when the results are written back. \<open>saved\<close> is the document
  \<open>writeFileSync\<close> is given, \<open>None\<close> when the write is skipped. The log lines are left
  out, and a write that is attempted succeeds.
\<close>

definition updateDownloadCounts ::
  "url_parser \<Rightarrow> network \<Rightarrow> int \<Rightarrow> disk_file \<Rightarrow> string option \<Rightarrow> bool \<Rightarrow> outcome" where
  "updateDownloadCounts URL net now registry token updatePluginTime =
     (case registry of
        Missing \<Rightarrow> \<lparr>ended = Throw ''missing'', saved = None, trace = [], summary = 0\<rparr>
      | Unparseable \<Rightarrow> \<lparr>ended = Throw ''parse'', saved = None, trace = [], summary = 0\<rparr>
      | Parsed data \<Rightarrow>
          (let plugin_list = (case plugins data of None \<Rightarrow> [] | Some ps \<Rightarrow> ps) in
           if length plugin_list = 0
           then \<lparr>ended = Normal (), saved = None, trace = [], summary = 0\<rparr>
           else
             (case fetch_loop URL net token plugin_list 0 [] [] of
                (results, tr) \<Rightarrow>
                  (let beijingNow = getBeijingTime now;
                       st = fold (apply_result updatePluginTime beijingNow) results
                              \<lparr>current = plugin_list, downloadCountUpdated = 0,
                               hasAnyChange = False\<rparr>
                   in \<lparr>ended = Normal (),
                       saved = (if hasAnyChange st then Some (data\<lparr>plugins := Some (current st)\<rparr>)
                                else None),
                       trace = tr,
                       summary = downloadCountUpdated st\<rparr>))))"

text \<open>The script's entry point: the exit code and what \<open>updateDownloadCounts\<close> did.\<close>

definition update_script ::
  "url_parser \<Rightarrow> network \<Rightarrow> int \<Rightarrow> disk_file \<Rightarrow> string option \<Rightarrow> string option
   \<Rightarrow> nat \<times> outcome" where
  "update_script URL net now registry GITHUB_TOKEN UPDATE_PLUGIN_TIME =
     (let token = (if unset GITHUB_TOKEN then None else GITHUB_TOKEN);
          updatePluginTime = (UPDATE_PLUGIN_TIME = Some ''true'');
          r = updateDownloadCounts URL net now registry token updatePluginTime
      in (case ended r of Normal u \<Rightarrow> (0, r) | _ \<Rightarrow> (1, r)))"

text \<open>The registry file after a run.\<close>

definition file_after :: "disk_file \<Rightarrow> outcome \<Rightarrow> disk_file" where
  "file_after registry r = (case saved r of None \<Rightarrow> registry | Some d \<Rightarrow> Parsed d)"

text \<open>The registry's invariant: no two plugins have the same \<open>id\<close>.\<close>

fun unique_ids :: "object list \<Rightarrow> bool" where
  "unique_ids [] = True"
| "unique_ids (p # ps) =
     (list_all (\<lambda>q. \<not> strict_equals (map_of p ''id'') (map_of q ''id'')) ps \<and> unique_ids ps)"

section \<open>The batches as concurrent tasks\<close>

text \<open>
  An \<open>async\<close> function that has been called is either finished, or suspended at an
  \<open>await\<close>: of a \<open>fetch\<close> whose request is out, or of the timer of a delay. What it
  does when it is resumed depends on the answer. \<open>'a async\<close> is such a computation with
  result type \<open>'a\<close>.
\<close>

datatype 'a async =
    Return 'a
  | Fetch request "fetched \<Rightarrow> 'a async"
  | Sleep nat "'a async"

text \<open>\<open>await p\<close> followed by the rest of the calling function.\<close>

primrec await_then :: "'a async \<Rightarrow> ('a \<Rightarrow> 'b async) \<Rightarrow> 'b async" where
  "await_then (Return a) g = g a"
| "await_then (Fetch req k) g = Fetch req (\<lambda>f. await_then (k f) g)"
| "await_then (Sleep ms p) g = Sleep ms (await_then p g)"

text \<open>
  The three functions of the fetch path once more, this time as computations that can be
  suspended: the same branches as \<open>fetchWithRetry\<close>, \<open>fetchGitHubReleases\<close> and
  \<open>getDownloadCountForPlugin\<close> above, with the network's answer \<open>f\<close> supplied when the
  \<open>fetch\<close> is resumed.
\<close>

definition received :: "fetched \<Rightarrow> failure + (string + release list)" where
  "received f =
     (case f of
        Rejected msg \<Rightarrow> Inl (Platform msg)
      | Response code statusText body \<Rightarrow>
          if \<not> ok code then Inl (ApiStatus code statusText) else Inr body)"

fun fetchWithRetry_async :: "request \<Rightarrow> nat \<Rightarrow> (failure + release list) async" where
  "fetchWithRetry_async req 0 =
     Fetch req (\<lambda>f.
       case received f of
         Inr (Inr releases) \<Rightarrow> Return (Inr releases)
       | Inr (Inl msg) \<Rightarrow> Return (Inl (Platform msg))
       | Inl err \<Rightarrow> Return (Inl err))"
| "fetchWithRetry_async req (Suc r) =
     Fetch req (\<lambda>f.
       case received f of
         Inr (Inr releases) \<Rightarrow> Return (Inr releases)
       | Inr (Inl msg) \<Rightarrow> Return (Inl (Platform msg))
       | Inl err \<Rightarrow> Sleep RETRY_DELAY (fetchWithRetry_async req r))"

definition fetchGitHubReleases_async ::
  "string \<Rightarrow> string \<Rightarrow> string option \<Rightarrow> (failure + release list) async" where
  "fetchGitHubReleases_async owner_name repo_name token =
     fetchWithRetry_async (releases_request owner_name repo_name token) RETRY_TIMES"

definition getDownloadCountForPlugin_async ::
  "url_parser \<Rightarrow> string option \<Rightarrow> nat \<times> object \<Rightarrow> result async" where
  "getDownloadCountForPlugin_async URL token p =
     (case extractGitHubRepo URL (map_of (snd p) ''downloadUrl'') of
        None \<Rightarrow> Return \<lparr>plugin = fst p, count = None, error = Some NoRepoInfo\<rparr>
      | Some repoInfo \<Rightarrow>
          await_then (fetchGitHubReleases_async (owner repoInfo) (repo repoInfo) token)
            (\<lambda>r. case r of
                    Inr releases \<Rightarrow>
                      Return \<lparr>plugin = fst p, count = Some (totalCount releases), error = None\<rparr>
                  | Inl err \<Rightarrow> Return \<lparr>plugin = fst p, count = None, error = Some err\<rparr>))"

text \<open>
  Running one computation to its end against a network, with nothing else going on: each
  \<open>fetch\<close> is answered from the trace so far, each delay passes.
\<close>

primrec settle :: "network \<Rightarrow> 'a async \<Rightarrow> event list \<Rightarrow> 'a \<times> event list" where
  "settle net (Return a) = (\<lambda>tr. (a, tr))"
| "settle net (Fetch req k) = (\<lambda>tr. settle net (k (net tr req)) (tr @ [Request req]))"
| "settle net (Sleep ms p) = (\<lambda>tr. settle net p (tr @ [Delay ms]))"

text \<open>
  The batch loop on the event loop. The state holds the loop variable \<open>i\<close>, whether the
  loop is suspended at \<open>await Promise.all(...)\<close> or has exited, every task started so far
  (the task of plugin \<open>k\<close> at index \<open>k\<close>: the batches are consecutive slices), the
  \<open>results\<close> array, and the requests sent so far, each with the index of the plugin
  whose task sent it.
\<close>

record loop_state =
  position :: nat
  awaiting :: bool
  pool :: "result async list"
  pushed :: "result list"
  sent :: "(nat \<times> request) list"

text \<open>The request a computation has out, and the result of a finished one.\<close>

definition issued :: "'a async \<Rightarrow> request list" where
  "issued p = (case p of Fetch req k \<Rightarrow> [req] | _ \<Rightarrow> [])"

definition returned :: "'a async \<Rightarrow> bool" where
  "returned p = (case p of Return a \<Rightarrow> True | _ \<Rightarrow> False)"

definition returned_value :: "'a async \<Rightarrow> 'a list" where
  "returned_value p = (case p of Return a \<Rightarrow> [a] | _ \<Rightarrow> [])"

text \<open>
  The loop head with the loop variable at \<open>i\<close>. If \<open>i < plugins.length\<close>,
  \<open>batch.map(...)\<close> calls \<open>getDownloadCountForPlugin\<close> for every plugin of the slice:
  each call runs to its first \<open>await\<close>, which sends the first request of a plugin whose URL
  resolves, and the loop suspends at \<open>await Promise.all\<close>. Otherwise the loop exits.
\<close>

definition enter :: "url_parser \<Rightarrow> string option \<Rightarrow> object list \<Rightarrow> nat \<Rightarrow> loop_state \<Rightarrow> loop_state" where
  "enter URL token plugin_list i s =
     (if i < length plugin_list
      then
        (let batch = slice plugin_list i (i + CONCURRENCY) in
         s\<lparr>position := i, awaiting := True,
           pool := pool s @ map (getDownloadCountForPlugin_async URL token) batch,
           sent := sent s
             @ concat (map (\<lambda>p. map (Pair (fst p))
                                   (issued (getDownloadCountForPlugin_async URL token p))) batch)\<rparr>)
      else s\<lparr>position := i, awaiting := False\<rparr>)"

text \<open>
  The states the loop can be in. Which task is resumed next, and with which answer, is
  for the network and the timers to decide.
  \<^item> \<open>loop_entry\<close>: the loop starts with \<open>i = 0\<close> and an empty \<open>results\<close>.
  \<^item> \<open>response\<close>: a \<open>fetch\<close> that is out is answered, with any answer \<open>f\<close>, and its task
    runs on to its next \<open>await\<close> or to its end.
  \<^item> \<open>timer\<close>: a delay is over and its task runs on; in \<open>fetchWithRetry\<close> that sends the
    next request.
  \<^item> \<open>batch_settled\<close>: \<open>Promise.all\<close> resolves once every task of the current batch has
    finished. The loop pushes the batch's results and goes to its head with
    \<open>i + CONCURRENCY\<close>.
\<close>

inductive loop_reaches :: "url_parser \<Rightarrow> string option \<Rightarrow> object list \<Rightarrow> loop_state \<Rightarrow> bool"
  for URL :: url_parser and token :: "string option" and plugin_list :: "object list" where
  loop_entry:
    "loop_reaches URL token plugin_list
       (enter URL token plugin_list 0
          \<lparr>position = 0, awaiting = False, pool = [], pushed = [], sent = []\<rparr>)"
| response:
    "loop_reaches URL token plugin_list s \<Longrightarrow> j < length (pool s) \<Longrightarrow> pool s ! j = Fetch req k \<Longrightarrow>
     loop_reaches URL token plugin_list
       (s\<lparr>pool := (pool s)[j := k f], sent := sent s @ map (Pair j) (issued (k f))\<rparr>)"
| timer:
    "loop_reaches URL token plugin_list s \<Longrightarrow> j < length (pool s) \<Longrightarrow> pool s ! j = Sleep ms p \<Longrightarrow>
     loop_reaches URL token plugin_list
       (s\<lparr>pool := (pool s)[j := p], sent := sent s @ map (Pair j) (issued p)\<rparr>)"
| batch_settled:
    "loop_reaches URL token plugin_list s \<Longrightarrow> awaiting s \<Longrightarrow>
     list_all returned (drop (position s) (pool s)) \<Longrightarrow>
     loop_reaches URL token plugin_list
       (enter URL token plugin_list (position s + CONCURRENCY)
          (s\<lparr>pushed := pushed s @ concat (map returned_value (drop (position s) (pool s)))\<rparr>))"

text \<open>The requests that are out, and the requests the task of plugin \<open>k\<close> has sent.\<close>

definition in_flight :: "loop_state \<Rightarrow> nat" where
  "in_flight s = length (filter (\<lambda>p. issued p \<noteq> []) (pool s))"

definition requests_of :: "nat \<Rightarrow> loop_state \<Rightarrow> request list" where
  "requests_of k s = map snd (filter (\<lambda>e. fst e = k) (sent s))"

section \<open>Notions the properties are stated with\<close>

text \<open>A \<open>fetch\<close> that fails: it rejects, or its response has a status outside 200 to 299.\<close>

definition failing :: "fetched \<Rightarrow> bool" where
  "failing f = (case f of Rejected msg \<Rightarrow> True | Response code statusText body \<Rightarrow> \<not> ok code)"

text \<open>The number of requests in a trace.\<close>

definition attempts :: "event list \<Rightarrow> nat" where
  "attempts tr = length (filter (\<lambda>e. case e of Request req \<Rightarrow> True | Delay ms \<Rightarrow> False) tr)"

text \<open>
  The count a plugin object stores, read as the script reads it
  (\<open>plugins[pluginIndex].downloadCount || 0\<close>): an absent count is 0.
\<close>

definition stored_count :: "object \<Rightarrow> json" where
  "stored_count p = or_else (map_of p ''downloadCount'') (JNum 0)"

text \<open>Whether a result makes the script count a change, and the object one pass leaves.\<close>

definition count_changes :: "result \<Rightarrow> object \<Rightarrow> bool" where
  "count_changes r p =
     (\<not> has_error r \<and> \<not> strict_equals (map_of p ''downloadCount'') (Some (js_count r)))"

definition updated_plugin :: "bool \<Rightarrow> string \<Rightarrow> result \<Rightarrow> object \<Rightarrow> object" where
  "updated_plugin updatePluginTime beijingNow r p =
     (let p1 = AList.update ''downloadCount'' (if has_error r then stored_count p else js_count r) p
      in if updatePluginTime then AList.update ''updateTime'' (JStr beijingNow) p1 else p1)"

definition ids :: "object list \<Rightarrow> jsvalue list" where
  "ids ps = map (\<lambda>p. map_of p ''id'') ps"

definition urls :: "object list \<Rightarrow> jsvalue list" where
  "urls ps = map (\<lambda>p. map_of p ''downloadUrl'') ps"

text \<open>The results the batches give for a plugin list, one per plugin.\<close>

definition fetch_results :: "url_parser \<Rightarrow> network \<Rightarrow> string option \<Rightarrow> object list \<Rightarrow> result list" where
  "fetch_results URL net token plugin_list = fst (fetch_loop URL net token plugin_list 0 [] [])"

text \<open>\<open>data.plugins || []\<close>, for a document whose \<open>plugins\<close> member is absent or an array.\<close>

definition plugins_or_empty :: "document \<Rightarrow> object list" where
  "plugins_or_empty d = (case plugins d of None \<Rightarrow> [] | Some ps \<Rightarrow> ps)"

text \<open>The state the loop over the results ends in, and the plugins of a registry file.\<close>

definition final_state ::
  "url_parser \<Rightarrow> network \<Rightarrow> int \<Rightarrow> document \<Rightarrow> string option \<Rightarrow> bool \<Rightarrow> state" where
  "final_state URL net now data token updatePluginTime =
     fold (apply_result updatePluginTime (getBeijingTime now))
       (fetch_results URL net token (plugins_or_empty data))
       \<lparr>current = plugins_or_empty data, downloadCountUpdated = 0, hasAnyChange = False\<rparr>"

definition plugins_on_disk :: "disk_file \<Rightarrow> object list" where
  "plugins_on_disk registry = (case registry of Parsed d \<Rightarrow> plugins_or_empty d | _ \<Rightarrow> [])"

text \<open>
  What one task has done so far: the answers it has received, the requests it has sent,
  and where it stands now.
\<close>

inductive trail :: "'a async \<Rightarrow> fetched list \<Rightarrow> request list \<Rightarrow> 'a async \<Rightarrow> bool"
  for p0 :: "'a async" where
  called: "trail p0 [] (issued p0) p0"
| answered: "trail p0 fs reqs (Fetch req k) \<Longrightarrow> trail p0 (fs @ [f]) (reqs @ issued (k f)) (k f)"
| woken: "trail p0 fs reqs (Sleep ms p) \<Longrightarrow> trail p0 fs (reqs @ issued p) p"

text \<open>What holds of the loop variable, the tasks and the results in every state of the loop.\<close>

definition loop_invariant :: "object list \<Rightarrow> loop_state \<Rightarrow> bool" where
  "loop_invariant plugin_list s =
     (position s mod CONCURRENCY = 0
      \<and> (if awaiting s
          then position s < length plugin_list
               \<and> length (pool s) = min (position s + CONCURRENCY) (length plugin_list)
          else length plugin_list \<le> position s \<and> length (pool s) = length plugin_list)
      \<and> list_all returned (take (position s) (pool s))
      \<and> pushed s = concat (map returned_value (take (position s) (pool s))))"

definition tasks_invariant :: "url_parser \<Rightarrow> string option \<Rightarrow> object list \<Rightarrow> loop_state \<Rightarrow> bool" where
  "tasks_invariant URL token ps s =
     ((\<forall>j<length (pool s).
          \<exists>fs. trail (getDownloadCountForPlugin_async URL token (j, ps ! j)) fs
                  (requests_of j s) (pool s ! j))
      \<and> (\<forall>j. length (pool s) \<le> j \<longrightarrow> requests_of j s = []))"

text \<open>A network that gives the answers \<open>fs\<close>, in order, from its \<open>c\<close>-th request on.\<close>

definition answers_from :: "network \<Rightarrow> nat \<Rightarrow> fetched list \<Rightarrow> bool" where
  "answers_from net c fs = (\<forall>i<length fs. \<forall>tr req. attempts tr = c + i \<longrightarrow> net tr req = fs ! i)"

section \<open>Concrete registries\<close>

definition example_main :: document where
  "example_main =
     \<lparr>plugins = Some
        [[(''id'', JStr ''a''), (''name'', JStr ''Alpha''), (''downloadCount'', JNum 7)],
         [(''id'', JStr ''b''), (''name'', JStr ''Beta'')]],
      rest = [(''version'', JNum 4)]\<rparr>"

definition example_store :: document where
  "example_store =
     \<lparr>plugins = Some
        [[(''id'', JStr ''a''), (''downloadCount'', JNum 42)],
         [(''id'', JStr ''c'')]],
      rest = []\<rparr>"

definition example_fs :: "disk_file \<Rightarrow> filesystem" where
  "example_fs store path =
     (if path = ''main.json'' then Parsed example_main
      else if path = ''store.json'' then store
      else Missing)"

text \<open>A registry of three plugins, a URL parser that knows their URLs, and a network.\<close>

definition example_URL :: url_parser where
  "example_URL v =
     (case v of
        Some (JStr s) \<Rightarrow>
          if s = ''https://github.com/o/r'' then Some (''github.com'', ''/o/r'')
          else if s = ''https://github.com/o/s/releases/download/v1/s.zip''
          then Some (''github.com'', ''/o/s/releases/download/v1/s.zip'')
          else if s = ''https://example.org/x.zip'' then Some (''example.org'', ''/x.zip'')
          else None
      | _ \<Rightarrow> None)"

definition example_net :: network where
  "example_net tr req =
     (if url req = ''https://api.github.com/repos/o/r/releases''
      then Response 200 ''OK''
             (Inr [\<lparr>assets = Some [\<lparr>download_count = Some 7\<rparr>, \<lparr>download_count = None\<rparr>]\<rparr>,
                   \<lparr>assets = None\<rparr>,
                   \<lparr>assets = Some [\<lparr>download_count = Some 3\<rparr>]\<rparr>])
      else if url req = ''https://api.github.com/repos/o/s/releases''
      then Response 503 ''Service Unavailable'' (Inl ''no body'')
      else Rejected ''fetch failed'')"

definition example_registry :: document where
  "example_registry =
     \<lparr>plugins = Some
        [[(''id'', JStr ''a''), (''downloadUrl'', JStr ''https://github.com/o/r''),
          (''downloadCount'', JNum 0)],
         [(''id'', JStr ''b''),
          (''downloadUrl'', JStr ''https://github.com/o/s/releases/download/v1/s.zip''),
          (''downloadCount'', JNum 5)],
         [(''id'', JStr ''c''), (''downloadUrl'', JStr ''https://example.org/x.zip'')]],
      rest = [(''version'', JNum 4)]\<rparr>"

text \<open>A registry of one plugin, before and after a run that stamps the update time.\<close>

definition fresh_registry :: document where
  "fresh_registry =
     \<lparr>plugins = Some
        [[(''id'', JStr ''a''), (''downloadUrl'', JStr ''https://github.com/o/r''),
          (''downloadCount'', JNum 0)]],
      rest = []\<rparr>"

definition stamped_registry :: document where
  "stamped_registry =
     \<lparr>plugins = Some
        [[(''id'', JStr ''a''), (''downloadUrl'', JStr ''https://github.com/o/r''),
          (''downloadCount'', JNum 10), (''updateTime'', JStr ''1970-01-01T08:00:00+08:00'')]],
      rest = []\<rparr>"

text \<open>
  Six plugins of one repository, and a network whose responses have status 200 and a body
  that is not JSON.
\<close>

definition busy_plugins :: "object list" where
  "busy_plugins =
     map (\<lambda>name. [(''id'', JStr name), (''downloadUrl'', JStr ''https://github.com/o/r'')])
       [''p0'', ''p1'', ''p2'', ''p3'', ''p4'', ''p5'']"


declare fetch_loop.simps [simp del]
declare fetchWithRetry.simps [simp del]

section \<open>Properties of the merge script\<close>

lemma readJSON_cases:
  "readJSON fs f = (case fs f of Parsed d \<Rightarrow> ([], Normal d) | _ \<Rightarrow> ([ReadFailed f], Exit 1))"
  by (simp add: readJSON_def read_and_parse_def split: disk_file.splits)

lemma readJSON_never_throws: "snd (readJSON fs f) \<noteq> Throw e"
  by (simp add: readJSON_cases split: disk_file.splits)

lemma merge_plugins_parsed:
  assumes "\<not> unset MAIN_FILE" "\<not> unset STORE_FILE" "\<not> unset OUTPUT_FILE"
    and "fs (the MAIN_FILE) = Parsed mainData" "fs (the STORE_FILE) = Parsed storeData"
  shows "merge_plugins MAIN_FILE STORE_FILE OUTPUT_FILE fs =
           \<lparr>console = [MergeDone], exit_code = 0,
            written = Some (the OUTPUT_FILE,
                            mainData\<lparr>plugins := Some (mergedPlugins mainData storeData)\<rparr>)\<rparr>"
  using assms by (simp add: merge_plugins_def readJSON_cases)

text \<open>
  \<open>readJSON\<close> turns every failure of the read into \<open>process.exit(1)\<close>, so the
  \<open>catch\<close> around the read of the store file never runs: no run prints its warning.
\<close>

lemma store_fallback_unreachable:
  "StoreTreatedAsEmpty \<notin> set (console (merge_plugins MAIN_FILE STORE_FILE OUTPUT_FILE fs))"
  by (simp add: merge_plugins_def readJSON_cases split: disk_file.splits)

text \<open>The later version of the script differs in where the paths come from only.\<close>

lemma merge_plugins_cli_env:
  "merge_plugins_cli None None None MAIN_FILE STORE_FILE OUTPUT_FILE fs
     = merge_plugins MAIN_FILE STORE_FILE OUTPUT_FILE fs"
  by (simp add: merge_plugins_cli_def fallback_def unset_def)

lemma merge_plugins_cli_args:
  "\<not> unset main \<Longrightarrow> \<not> unset store \<Longrightarrow> \<not> unset output \<Longrightarrow>
   merge_plugins_cli main store output MAIN_FILE STORE_FILE OUTPUT_FILE fs
     = merge_plugins main store output fs"
  by (simp add: merge_plugins_cli_def fallback_def)

text \<open>
  Claim C1 expects the merge to go on with \<open>{ plugins: [] }\<close> when the store file is
  missing or is not JSON. The script does not: with the three paths given and a readable
  main file, a store file that is missing or unparseable makes the run print the read
  error, exit with code 1 and write nothing.
\<close>

theorem merge_exits_on_unreadable_store:
  assumes "\<not> unset MAIN_FILE" "\<not> unset STORE_FILE" "\<not> unset OUTPUT_FILE"
    and "fs (the MAIN_FILE) = Parsed mainData"
    and "fs (the STORE_FILE) = Missing \<or> fs (the STORE_FILE) = Unparseable"
  shows "merge_plugins MAIN_FILE STORE_FILE OUTPUT_FILE fs =
           \<lparr>console = [ReadFailed (the STORE_FILE)], exit_code = 1, written = None\<rparr>"
  using assms by (auto simp add: merge_plugins_def readJSON_cases)

lemma length_mergedPlugins:
  "length (mergedPlugins mainData storeData) = length (plugins_or_empty mainData)"
  by (simp add: mergedPlugins_def plugins_or_empty_def split: option.splits)

lemma nth_mergedPlugins:
  "i < length (plugins_or_empty mainData) \<Longrightarrow>
   mergedPlugins mainData storeData ! i
     = merged (storePluginMap storeData) (plugins_or_empty mainData ! i)"
  by (simp add: mergedPlugins_def plugins_or_empty_def split: option.splits)

lemma merged_other_member:
  "k \<noteq> ''downloadCount'' \<Longrightarrow> map_of (merged m p) k = map_of p k"
  by (simp add: merged_def update_conv')

lemma merged_delete:
  "AList.delete ''downloadCount'' (merged m p) = AList.delete ''downloadCount'' p"
  by (simp add: merged_def delete_update_same)

lemma merged_count:
  "map_of (merged m p) ''downloadCount''
     = Some (case m (map_of p ''id'') of None \<Rightarrow> JNum 0 | Some v \<Rightarrow> v)"
  by (simp add: merged_def update_conv' Map_has_def Map_get_def split: option.splits)

lemma fold_Map_set_absent:
  "\<forall>p\<in>set ps. \<not> strict_equals (key p) k \<Longrightarrow>
   fold (\<lambda>p m. Map_set m (key p) (val p)) ps m k = m k"
  by (induction ps arbitrary: m) (auto simp: Map_set_def strict_equals_def)

lemma fold_Map_set_present:
  assumes "p \<in> set ps" "strict_equals (key p) k"
    and "\<forall>q\<in>set ps. strict_equals (key q) k \<longrightarrow> val q = val p"
  shows "fold (\<lambda>p m. Map_set m (key p) (val p)) ps m k = Some (val p)"
  using assms
proof (induction ps arbitrary: m p)
  case Nil
  then show ?case by simp
next
  case (Cons x xs)
  let ?m1 = "Map_set m (key x) (val x)"
  show ?case
  proof (cases "\<exists>q\<in>set xs. strict_equals (key q) k")
    case True
    then obtain q where q: "q \<in> set xs" "strict_equals (key q) k" by blast
    with Cons.prems have vq: "val q = val p" by simp
    have "fold (\<lambda>p m. Map_set m (key p) (val p)) xs ?m1 k = Some (val q)"
    proof (rule Cons.IH[where p = q])
      show "\<forall>r\<in>set xs. strict_equals (key r) k \<longrightarrow> val r = val q"
        using Cons.prems(3) vq by simp
    qed (use q in simp_all)
    with vq show ?thesis by simp
  next
    case False
    with Cons.prems have px: "p = x" by auto
    from False have "fold (\<lambda>p m. Map_set m (key p) (val p)) xs ?m1 k = ?m1 k"
      by (intro fold_Map_set_absent) blast
    also have "?m1 k = Some (val p)"
      using Cons.prems(2) px by (auto simp: Map_set_def strict_equals_def)
    finally show ?thesis by simp
  qed
qed

lemma unique_ids_nth_less:
  "unique_ids ps \<Longrightarrow> j < k \<Longrightarrow> k < length ps \<Longrightarrow>
   \<not> strict_equals (map_of (ps ! j) ''id'') (map_of (ps ! k) ''id'')"
proof (induction ps arbitrary: j k)
  case Nil
  then show ?case by simp
next
  case (Cons p ps)
  from Cons.prems(2) obtain k' where k: "k = Suc k'" by (cases k) auto
  show ?case
  proof (cases j)
    case 0
    from Cons.prems(1) have "list_all (\<lambda>q. \<not> strict_equals (map_of p ''id'') (map_of q ''id'')) ps"
      by simp
    moreover have "k' < length ps" using Cons.prems(3) k by simp
    ultimately have "\<not> strict_equals (map_of p ''id'') (map_of (ps ! k') ''id'')"
      by (simp add: list_all_length)
    then show ?thesis by (simp add: 0 k)
  next
    case (Suc j')
    have "\<not> strict_equals (map_of (ps ! j') ''id'') (map_of (ps ! k') ''id'')"
    proof (rule Cons.IH)
      show "unique_ids ps" using Cons.prems(1) by simp
      show "j' < k'" using Cons.prems(2) Suc k by simp
      show "k' < length ps" using Cons.prems(3) k by simp
    qed
    then show ?thesis by (simp add: Suc k)
  qed
qed

lemma strict_equals_sym: "strict_equals a b = strict_equals b a"
  by (auto simp: strict_equals_def)

lemma unique_ids_nth:
  assumes "unique_ids ps" "j < length ps" "k < length ps" "j \<noteq> k"
  shows "\<not> strict_equals (map_of (ps ! j) ''id'') (map_of (ps ! k) ''id'')"
proof (cases "j < k")
  case True
  then show ?thesis using unique_ids_nth_less[OF assms(1) _ assms(3)] by blast
next
  case False
  with assms(4) have "k < j" by simp
  then have "\<not> strict_equals (map_of (ps ! k) ''id'') (map_of (ps ! j) ''id'')"
    using unique_ids_nth_less[OF assms(1) _ assms(2)] by blast
  then show ?thesis using strict_equals_sym by blast
qed

lemma unique_ids_same_entry:
  assumes "unique_ids ps" "p \<in> set ps" "q \<in> set ps"
    and "strict_equals (map_of p ''id'') x" "strict_equals (map_of q ''id'') x"
  shows "q = p"
proof -
  from assms(2,3) obtain j k where jk: "j < length ps" "ps ! j = p" "k < length ps" "ps ! k = q"
    by (auto simp: in_set_conv_nth)
  from assms(4,5) have "strict_equals (map_of (ps ! j) ''id'') (map_of (ps ! k) ''id'')"
    using jk by (auto simp: strict_equals_def)
  with unique_ids_nth[OF assms(1) jk(1) jk(3)] have "j = k" by blast
  with jk show ?thesis by simp
qed

lemma storePluginMap_lookup_present:
  assumes "unique_ids (plugins_or_empty storeData)" "s \<in> set (plugins_or_empty storeData)"
    and "strict_equals (map_of s ''id'') x"
  shows "storePluginMap storeData x = Some (nullish (map_of s ''downloadCount'') (JNum 0))"
proof -
  from assms(2) obtain ps where ps: "plugins storeData = Some ps"
    by (cases "plugins storeData") (auto simp: plugins_or_empty_def)
  then have pe: "plugins_or_empty storeData = ps"
    by (simp add: plugins_or_empty_def)
  have "fold (\<lambda>p m. Map_set m (map_of p ''id'') (nullish (map_of p ''downloadCount'') (JNum 0)))
          ps Map.empty x = Some (nullish (map_of s ''downloadCount'') (JNum 0))"
  proof (rule fold_Map_set_present[where key = "\<lambda>p. map_of p ''id''"
            and val = "\<lambda>p. nullish (map_of p ''downloadCount'') (JNum 0)" and p = s])
    show "s \<in> set ps" using assms(2) pe by simp
    show "strict_equals (map_of s ''id'') x" by (rule assms(3))
    show "\<forall>q\<in>set ps. strict_equals (map_of q ''id'') x \<longrightarrow>
          nullish (map_of q ''downloadCount'') (JNum 0) = nullish (map_of s ''downloadCount'') (JNum 0)"
    proof (intro ballI impI)
      fix q assume q: "q \<in> set ps" "strict_equals (map_of q ''id'') x"
      have "q = s"
      proof (rule unique_ids_same_entry[OF assms(1) assms(2) _ assms(3)])
        show "q \<in> set (plugins_or_empty storeData)" using q(1) pe by simp
        show "strict_equals (map_of q ''id'') x" by (rule q(2))
      qed
      then show "nullish (map_of q ''downloadCount'') (JNum 0) = nullish (map_of s ''downloadCount'') (JNum 0)"
        by simp
    qed
  qed
  then show ?thesis by (simp add: storePluginMap_def ps)
qed

lemma storePluginMap_lookup_absent:
  assumes "\<forall>s\<in>set (plugins_or_empty storeData). \<not> strict_equals (map_of s ''id'') x"
  shows "storePluginMap storeData x = None"
proof (cases "plugins storeData")
  case None
  then show ?thesis by (simp add: storePluginMap_def)
next
  case (Some ps)
  with assms have "\<forall>s\<in>set ps. \<not> strict_equals (map_of s ''id'') x"
    by (simp add: plugins_or_empty_def)
  then have "fold (\<lambda>p m. Map_set m (map_of p ''id'') (nullish (map_of p ''downloadCount'') (JNum 0)))
          ps Map.empty x = Map.empty x"
    by (rule fold_Map_set_absent[where key = "\<lambda>p. map_of p ''id''"
            and val = "\<lambda>p. nullish (map_of p ''downloadCount'') (JNum 0)"])
  then show ?thesis by (simp add: storePluginMap_def Some)
qed

text \<open>
  Claim C3: let \<open>X\<close> be the \<open>id\<close> of the \<open>i\<close>-th plugin of the main document. The
  written document has as many plugins as the main document, its \<open>i\<close>-th plugin has id
  \<open>X\<close>, and that plugin's \<open>downloadCount\<close> is the one of the store entry with id \<open>X\<close>
  (0 when that entry's count is missing or \<open>null\<close>) if the store, with unique ids, has
  such an entry, and 0 if the store has none.
\<close>

theorem merge_carries_count_forward:
  assumes "\<not> unset MAIN_FILE" "\<not> unset STORE_FILE" "\<not> unset OUTPUT_FILE"
    and "fs (the MAIN_FILE) = Parsed mainData" "fs (the STORE_FILE) = Parsed storeData"
    and "i < length (plugins_or_empty mainData)"
    and "X = map_of (plugins_or_empty mainData ! i) ''id''"
  shows "\<exists>out. written (merge_plugins MAIN_FILE STORE_FILE OUTPUT_FILE fs) = Some (the OUTPUT_FILE, out)
      \<and> length (plugins_or_empty out) = length (plugins_or_empty mainData)
      \<and> map_of (plugins_or_empty out ! i) ''id'' = X
      \<and> (\<forall>s. unique_ids (plugins_or_empty storeData) \<longrightarrow> s \<in> set (plugins_or_empty storeData) \<longrightarrow>
              strict_equals (map_of s ''id'') X \<longrightarrow>
              map_of (plugins_or_empty out ! i) ''downloadCount''
                = Some (nullish (map_of s ''downloadCount'') (JNum 0)))
      \<and> ((\<forall>s\<in>set (plugins_or_empty storeData). \<not> strict_equals (map_of s ''id'') X) \<longrightarrow>
              map_of (plugins_or_empty out ! i) ''downloadCount'' = Some (JNum 0))"
proof -
  let ?out = "mainData\<lparr>plugins := Some (mergedPlugins mainData storeData)\<rparr>"
  have w: "written (merge_plugins MAIN_FILE STORE_FILE OUTPUT_FILE fs) = Some (the OUTPUT_FILE, ?out)"
    by (simp add: merge_plugins_parsed[OF assms(1-5)])
  have po: "plugins_or_empty ?out = mergedPlugins mainData storeData"
    by (simp add: plugins_or_empty_def)
  have n: "plugins_or_empty ?out ! i = merged (storePluginMap storeData) (plugins_or_empty mainData ! i)"
    using assms(6) by (simp add: po nth_mergedPlugins)
  have len: "length (plugins_or_empty ?out) = length (plugins_or_empty mainData)"
    by (simp add: po length_mergedPlugins)
  have ident: "map_of (plugins_or_empty ?out ! i) ''id'' = X"
    by (simp add: n merged_other_member assms(7))
  have present: "map_of (plugins_or_empty ?out ! i) ''downloadCount''
                = Some (nullish (map_of s ''downloadCount'') (JNum 0))"
    if "unique_ids (plugins_or_empty storeData)" "s \<in> set (plugins_or_empty storeData)"
       "strict_equals (map_of s ''id'') X" for s
    using storePluginMap_lookup_present[OF that] by (simp add: n merged_count assms(7))
  have absent: "map_of (plugins_or_empty ?out ! i) ''downloadCount'' = Some (JNum 0)"
    if "\<forall>s\<in>set (plugins_or_empty storeData). \<not> strict_equals (map_of s ''id'') X"
    using storePluginMap_lookup_absent[OF that] by (simp add: n merged_count assms(7))
  show ?thesis
  proof (intro exI[of _ ?out] conjI allI impI)
    show "written (merge_plugins MAIN_FILE STORE_FILE OUTPUT_FILE fs) = Some (the OUTPUT_FILE, ?out)"
      by (rule w)
  qed (use len ident present absent in blast)+
qed

text \<open>
  Claim C8: the written document has the main document's top-level members other than
  \<open>plugins\<close>, and each of its plugins has the members of the main document's plugin at
  the same position, in the same order and with the same values, \<open>downloadCount\<close> apart.
\<close>

theorem merge_frame:
  assumes "\<not> unset MAIN_FILE" "\<not> unset STORE_FILE" "\<not> unset OUTPUT_FILE"
    and "fs (the MAIN_FILE) = Parsed mainData" "fs (the STORE_FILE) = Parsed storeData"
  shows "\<exists>out. written (merge_plugins MAIN_FILE STORE_FILE OUTPUT_FILE fs) = Some (the OUTPUT_FILE, out)
      \<and> rest out = rest mainData
      \<and> length (plugins_or_empty out) = length (plugins_or_empty mainData)
      \<and> (\<forall>i<length (plugins_or_empty mainData).
            AList.delete ''downloadCount'' (plugins_or_empty out ! i)
              = AList.delete ''downloadCount'' (plugins_or_empty mainData ! i)
          \<and> (\<forall>k. k \<noteq> ''downloadCount'' \<longrightarrow>
                 map_of (plugins_or_empty out ! i) k = map_of (plugins_or_empty mainData ! i) k))"
proof -
  let ?out = "mainData\<lparr>plugins := Some (mergedPlugins mainData storeData)\<rparr>"
  have w: "written (merge_plugins MAIN_FILE STORE_FILE OUTPUT_FILE fs) = Some (the OUTPUT_FILE, ?out)"
    by (simp add: merge_plugins_parsed[OF assms(1-5)])
  have po: "plugins_or_empty ?out = mergedPlugins mainData storeData"
    by (simp add: plugins_or_empty_def)
  show ?thesis
  proof (intro exI[of _ ?out] conjI allI impI)
    show "written (merge_plugins MAIN_FILE STORE_FILE OUTPUT_FILE fs) = Some (the OUTPUT_FILE, ?out)"
      by (rule w)
  qed (simp_all add: po length_mergedPlugins nth_mergedPlugins merged_other_member merged_delete)
qed

text \<open>With a readable store file the written plugins have the main document's ids, in order.\<close>

lemma merge_keeps_ids:
  assumes "\<not> unset MAIN_FILE" "\<not> unset STORE_FILE" "\<not> unset OUTPUT_FILE"
    and "fs (the MAIN_FILE) = Parsed mainData" "fs (the STORE_FILE) = Parsed storeData"
  shows "\<exists>out. written (merge_plugins MAIN_FILE STORE_FILE OUTPUT_FILE fs) = Some (the OUTPUT_FILE, out)
      \<and> map (\<lambda>p. map_of p ''id'') (plugins_or_empty out)
          = map (\<lambda>p. map_of p ''id'') (plugins_or_empty mainData)"
proof -
  let ?out = "mainData\<lparr>plugins := Some (mergedPlugins mainData storeData)\<rparr>"
  have w: "written (merge_plugins MAIN_FILE STORE_FILE OUTPUT_FILE fs) = Some (the OUTPUT_FILE, ?out)"
    by (simp add: merge_plugins_parsed[OF assms(1-5)])
  have "map (\<lambda>p. map_of p ''id'') (mergedPlugins mainData storeData)
          = map (\<lambda>p. map_of p ''id'') (plugins_or_empty mainData)"
    by (simp add: mergedPlugins_def plugins_or_empty_def merged_other_member split: option.splits)
  then show ?thesis
    by (intro exI[of _ ?out]) (simp add: w plugins_or_empty_def)
qed


theorem merge_exits_on_unreadable_store_witness:
  "merge_plugins (Some ''main.json'') (Some ''store.json'') (Some ''out.json'') (example_fs Unparseable)
     = \<lparr>console = [ReadFailed ''store.json''], exit_code = 1, written = None\<rparr>"
proof -
  have paths: "\<not> unset (Some ''main.json'')" "\<not> unset (Some ''store.json'')"
    "\<not> unset (Some ''out.json'')"
    by (simp_all add: unset_def)
  have main: "example_fs Unparseable (the (Some ''main.json'')) = Parsed example_main"
    by (simp add: example_fs_def)
  have store: "example_fs Unparseable (the (Some ''store.json'')) = Missing
      \<or> example_fs Unparseable (the (Some ''store.json'')) = Unparseable"
    by (simp add: example_fs_def)
  show ?thesis
    using merge_exits_on_unreadable_store[OF paths main store] by simp
qed

text \<open>
  Claim C2 expects a plugins list with the main document's ids also when the store file
  is absent. For the main document \<open>example_main\<close>, whose ids are \<open>a\<close> and \<open>b\<close>, and no
  store file, the script writes no document at all and exits with code 1.
\<close>

theorem merge_missing_store_writes_nothing:
  "\<not> (\<exists>out. written (merge_plugins (Some ''main.json'') (Some ''store.json'') (Some ''out.json'')
                         (example_fs Missing)) = Some (''out.json'', out)
            \<and> map (\<lambda>p. map_of p ''id'') (plugins_or_empty out) = [Some (JStr ''a''), Some (JStr ''b'')])
   \<and> exit_code (merge_plugins (Some ''main.json'') (Some ''store.json'') (Some ''out.json'')
                  (example_fs Missing)) = 1
   \<and> map (\<lambda>p. map_of p ''id'') (plugins_or_empty example_main) = [Some (JStr ''a''), Some (JStr ''b'')]"
  by (simp add: merge_plugins_def readJSON_def read_and_parse_def example_fs_def unset_def
        example_main_def plugins_or_empty_def)

theorem merge_carries_count_forward_witness:
  "\<exists>out. written (merge_plugins (Some ''main.json'') (Some ''store.json'') (Some ''out.json'')
                   (example_fs (Parsed example_store))) = Some (''out.json'', out)
      \<and> map_of (plugins_or_empty out ! 0) ''downloadCount'' = Some (JNum 42)"
proof -
  have paths: "\<not> unset (Some ''main.json'')" "\<not> unset (Some ''store.json'')"
    "\<not> unset (Some ''out.json'')"
    by (simp_all add: unset_def)
  have main: "example_fs (Parsed example_store) (the (Some ''main.json'')) = Parsed example_main"
    by (simp add: example_fs_def)
  have store: "example_fs (Parsed example_store) (the (Some ''store.json'')) = Parsed example_store"
    by (simp add: example_fs_def)
  have i: "0 < length (plugins_or_empty example_main)"
    by (simp add: example_main_def plugins_or_empty_def)
  have X: "Some (JStr ''a'') = map_of (plugins_or_empty example_main ! 0) ''id''"
    by (simp add: example_main_def plugins_or_empty_def)
  from merge_carries_count_forward[OF paths main store i X]
  obtain out where out:
    "written (merge_plugins (Some ''main.json'') (Some ''store.json'') (Some ''out.json'')
       (example_fs (Parsed example_store))) = Some (the (Some ''out.json''), out)"
    "\<forall>s. unique_ids (plugins_or_empty example_store) \<longrightarrow> s \<in> set (plugins_or_empty example_store) \<longrightarrow>
         strict_equals (map_of s ''id'') (Some (JStr ''a'')) \<longrightarrow>
         map_of (plugins_or_empty out ! 0) ''downloadCount''
           = Some (nullish (map_of s ''downloadCount'') (JNum 0))"
    by blast
  have "map_of (plugins_or_empty out ! 0) ''downloadCount''
          = Some (nullish (map_of [(''id'', JStr ''a''), (''downloadCount'', JNum 42)] ''downloadCount'') (JNum 0))"
    using out(2)[rule_format, of "[(''id'', JStr ''a''), (''downloadCount'', JNum 42)]"]
    by (simp add: example_store_def plugins_or_empty_def strict_equals_def)
  then show ?thesis using out(1) by simp
qed

theorem merge_frame_witness:
  "\<exists>out. written (merge_plugins (Some ''main.json'') (Some ''store.json'') (Some ''out.json'')
                   (example_fs (Parsed example_store))) = Some (''out.json'', out)
      \<and> rest out = [(''version'', JNum 4)]
      \<and> length (plugins_or_empty out) = 2
      \<and> map_of (plugins_or_empty out ! 1) ''name'' = Some (JStr ''Beta'')"
proof -
  have paths: "\<not> unset (Some ''main.json'')" "\<not> unset (Some ''store.json'')"
    "\<not> unset (Some ''out.json'')"
    by (simp_all add: unset_def)
  have main: "example_fs (Parsed example_store) (the (Some ''main.json'')) = Parsed example_main"
    by (simp add: example_fs_def)
  have store: "example_fs (Parsed example_store) (the (Some ''store.json'')) = Parsed example_store"
    by (simp add: example_fs_def)
  from merge_frame[OF paths main store]
  obtain out where out:
    "written (merge_plugins (Some ''main.json'') (Some ''store.json'') (Some ''out.json'')
       (example_fs (Parsed example_store))) = Some (the (Some ''out.json''), out)"
    "rest out = rest example_main"
    "length (plugins_or_empty out) = length (plugins_or_empty example_main)"
    "\<forall>i<length (plugins_or_empty example_main).
        AList.delete ''downloadCount'' (plugins_or_empty out ! i)
          = AList.delete ''downloadCount'' (plugins_or_empty example_main ! i)
        \<and> (\<forall>k. k \<noteq> ''downloadCount'' \<longrightarrow>
              map_of (plugins_or_empty out ! i) k = map_of (plugins_or_empty example_main ! i) k)"
    by blast
  have "map_of (plugins_or_empty out ! 1) ''name'' = map_of (plugins_or_empty example_main ! 1) ''name''"
    using out(4) by (simp add: example_main_def plugins_or_empty_def)
  then show ?thesis
    using out(1,2,3) by (simp add: example_main_def plugins_or_empty_def)
qed

section \<open>Properties of the download-count script\<close>

subsection \<open>Retries\<close>

lemma attempt_failing:
  "failing (net tr req) \<Longrightarrow> \<exists>err. attempt net req tr = Inl err"
  by (auto simp: failing_def attempt_def split: fetched.splits)

text \<open>
  When every attempt fails, \<open>fetchWithRetry\<close> makes \<open>retry + 1\<close> requests with a delay
  after each but the last, and ends with the error of the last attempt.
\<close>

lemma fetchWithRetry_all_fail:
  assumes "\<forall>n\<le>retry. failing (net (tr @ concat (replicate n [Request req, Delay RETRY_DELAY])) req)"
  shows "\<exists>err. fetchWithRetry net req retry tr
           = (Inl err, tr @ concat (replicate retry [Request req, Delay RETRY_DELAY]) @ [Request req])
         \<and> attempt net req (tr @ concat (replicate retry [Request req, Delay RETRY_DELAY])) = Inl err"
  using assms
proof (induction retry arbitrary: tr)
  case 0
  then have "failing (net tr req)" by simp
  then obtain err where "attempt net req tr = Inl err" using attempt_failing by blast
  then show ?case by (subst fetchWithRetry.simps) simp
next
  case (Suc r)
  from Suc.prems have "failing (net tr req)" by (metis le0 replicate_0 concat.simps(1) append_Nil2)
  then obtain e0 where e0: "attempt net req tr = Inl e0" using attempt_failing by blast
  have "\<forall>n\<le>r. failing (net ((tr @ [Request req, Delay RETRY_DELAY])
               @ concat (replicate n [Request req, Delay RETRY_DELAY])) req)"
  proof (intro allI impI)
    fix n assume "n \<le> r"
    then have "Suc n \<le> Suc r" by simp
    then have "failing (net (tr @ concat (replicate (Suc n) [Request req, Delay RETRY_DELAY])) req)"
      using Suc.prems by blast
    then show "failing (net ((tr @ [Request req, Delay RETRY_DELAY])
               @ concat (replicate n [Request req, Delay RETRY_DELAY])) req)"
      by simp
  qed
  from Suc.IH[of "tr @ [Request req, Delay RETRY_DELAY]", OF this] obtain err where
    "fetchWithRetry net req r (tr @ [Request req, Delay RETRY_DELAY])
       = (Inl err, (tr @ [Request req, Delay RETRY_DELAY])
            @ concat (replicate r [Request req, Delay RETRY_DELAY]) @ [Request req])"
    "attempt net req ((tr @ [Request req, Delay RETRY_DELAY])
            @ concat (replicate r [Request req, Delay RETRY_DELAY])) = Inl err"
    by blast
  then show ?case using e0 by (subst fetchWithRetry.simps) simp
qed




text \<open>
  A response with a status from 200 to 299 whose body cannot be read as JSON fails in
  another way: \<open>res.json()\<close> is returned without \<open>await\<close>, its rejection passes the
  \<open>catch\<close> by, and the error reaches the plugin's result after that one request.
\<close>

lemma unreadable_body_not_retried:
  assumes "net tr req = Response code statusText (Inl msg)" "ok code"
  shows "fetchWithRetry net req retry tr = (Inl (Platform msg), tr @ [Request req])"
  using assms by (subst fetchWithRetry.simps) (simp add: attempt_def)


subsection \<open>A registry without plugins\<close>

text \<open>
  Claim C10: when the registry document has no \<open>plugins\<close> member or an empty one, the run
  ends normally (exit code 0) without a request and without a write, and the file is as
  it was.
\<close>

theorem reconcile_without_plugins:
  assumes "plugins data = None \<or> plugins data = Some []"
  shows "updateDownloadCounts URL net now (Parsed data) token updatePluginTime
           = \<lparr>ended = Normal (), saved = None, trace = [], summary = 0\<rparr>
       \<and> fst (update_script URL net now (Parsed data) GITHUB_TOKEN UPDATE_PLUGIN_TIME) = 0
       \<and> file_after (Parsed data)
            (updateDownloadCounts URL net now (Parsed data) token updatePluginTime) = Parsed data"
  using assms by (auto simp: updateDownloadCounts_def update_script_def file_after_def)

theorem reconcile_without_plugins_witness:
  "updateDownloadCounts example_URL example_net 0 (Parsed \<lparr>plugins = Some [], rest = []\<rparr>) None True
     = \<lparr>ended = Normal (), saved = None, trace = [], summary = 0\<rparr>"
proof -
  have "plugins \<lparr>plugins = Some [], rest = []\<rparr> = None
      \<or> plugins \<lparr>plugins = Some [], rest = []\<rparr> = Some []"
    by simp
  from reconcile_without_plugins[OF this, of example_URL example_net 0 None True]
  show ?thesis by blast
qed

subsection \<open>The loop over the results\<close>

lemma apply_result_eq:
  "apply_result stamp now r st =
     (case findIndex (current st) (plugin r) of
        None \<Rightarrow> st
      | Some i \<Rightarrow>
          \<lparr>current = (current st)[i := updated_plugin stamp now r (current st ! i)],
           downloadCountUpdated =
             (if count_changes r (current st ! i) then Suc (downloadCountUpdated st)
              else downloadCountUpdated st),
           hasAnyChange = (hasAnyChange st \<or> count_changes r (current st ! i) \<or> stamp)\<rparr>)"
  by (simp add: apply_result_def updated_plugin_def count_changes_def stored_count_def Let_def
      split: option.splits)

lemma updated_plugin_other:
  "k \<noteq> ''downloadCount'' \<Longrightarrow> k \<noteq> ''updateTime'' \<Longrightarrow>
   map_of (updated_plugin stamp now r p) k = map_of p k"
  by (simp add: updated_plugin_def update_conv' Let_def)

lemma updated_plugin_count:
  "map_of (updated_plugin stamp now r p) ''downloadCount''
     = Some (if has_error r then stored_count p else js_count r)"
  by (simp add: updated_plugin_def update_conv' Let_def)

lemma updated_plugin_time:
  "map_of (updated_plugin True now r p) ''updateTime'' = Some (JStr now)"
  by (simp add: updated_plugin_def update_conv' Let_def)

text \<open>
  \<open>findIndex\<close> finds an index at or before the plugin's own; with unique ids it finds
  the plugin's own index. It depends on the ids only, which no pass of the loop changes.
\<close>

lemma findIndex_Some_lt: "findIndex ps k = Some i \<Longrightarrow> i < length ps"
  by (auto simp: findIndex_def find_Some_iff)

lemma findIndex_le:
  assumes "k < length ps"
  shows "\<exists>i\<le>k. findIndex ps k = Some i"
proof (cases "findIndex ps k")
  case None
  then have "\<not> (k = k \<or> strict_equals (map_of (ps ! k) ''id'') (map_of (ps ! k) ''id''))"
    using assms unfolding findIndex_def find_None_iff by (metis atLeast0LessThan lessThan_iff set_upt)
  then show ?thesis by simp
next
  case (Some i)
  then obtain n where n: "n < length [0..<length ps]" "[0..<length ps] ! n = i"
      "\<forall>j<n. \<not> ([0..<length ps] ! j = k
                 \<or> strict_equals (map_of (ps ! ([0..<length ps] ! j)) ''id'') (map_of (ps ! k) ''id''))"
    unfolding findIndex_def find_Some_iff by blast
  then have i: "n = i" "i < length ps" by auto
  have "i \<le> k"
  proof (rule ccontr)
    assume "\<not> i \<le> k"
    then have "k < n" using i by simp
    with n(3) have "[0..<length ps] ! k \<noteq> k" by blast
    with assms show False by simp
  qed
  with Some show ?thesis by simp
qed

lemma findIndex_unique:
  assumes "unique_ids ps" "k < length ps"
  shows "findIndex ps k = Some k"
proof -
  from findIndex_le[OF assms(2)] obtain i where i: "i \<le> k" "findIndex ps k = Some i" by blast
  then have "i = k \<or> strict_equals (map_of (ps ! i) ''id'') (map_of (ps ! k) ''id'')"
    by (auto simp: findIndex_def find_Some_iff)
  moreover have "i < length ps" using i assms(2) by simp
  ultimately have "i = k" using unique_ids_nth[OF assms(1) _ assms(2)] by blast
  with i show ?thesis by simp
qed

lemma findIndex_cong:
  assumes "ids ps = ids ps'" "k < length ps"
  shows "findIndex ps k = findIndex ps' k"
proof -
  from assms(1) have len: "length ps = length ps'"
    by (metis ids_def length_map)
  have nth: "map_of (ps ! j) ''id'' = map_of (ps' ! j) ''id''" if "j < length ps" for j
  proof -
    have "ids ps ! j = map_of (ps ! j) ''id''" using that by (simp add: ids_def)
    moreover have "ids ps' ! j = map_of (ps' ! j) ''id''" using that len by (simp add: ids_def)
    ultimately show ?thesis using assms(1) by simp
  qed
  show ?thesis
    unfolding findIndex_def len[symmetric]
    by (rule find_cong) (use nth assms(2) in auto)
qed

lemma length_apply_result [simp]:
  "length (current (apply_result stamp now r st)) = length (current st)"
  by (simp add: apply_result_eq split: option.splits)

lemma ids_list_update:
  "ids (ps[i := q]) = ids ps" if "map_of q ''id'' = map_of (ps ! i) ''id''"
proof (cases "i < length ps")
  case True
  then show ?thesis using that by (simp add: ids_def map_update list_update_same_conv)
next
  case False
  then have "ps[i := q] = ps" by (simp add: list_update_beyond)
  then show ?thesis by simp
qed

lemma urls_list_update:
  "urls (ps[i := q]) = urls ps" if "map_of q ''downloadUrl'' = map_of (ps ! i) ''downloadUrl''"
proof (cases "i < length ps")
  case True
  then show ?thesis using that by (simp add: urls_def map_update list_update_same_conv)
next
  case False
  then have "ps[i := q] = ps" by (simp add: list_update_beyond)
  then show ?thesis by simp
qed

lemma ids_apply_result [simp]:
  "ids (current (apply_result stamp now r st)) = ids (current st)"
  by (simp add: apply_result_eq ids_list_update updated_plugin_other split: option.splits)

lemma urls_apply_result [simp]:
  "urls (current (apply_result stamp now r st)) = urls (current st)"
  by (simp add: apply_result_eq urls_list_update updated_plugin_other split: option.splits)

lemma length_fold_apply [simp]:
  "length (current (fold (apply_result stamp now) rs st)) = length (current st)"
  by (induction rs arbitrary: st) simp_all

lemma ids_fold_apply [simp]:
  "ids (current (fold (apply_result stamp now) rs st)) = ids (current st)"
  by (induction rs arbitrary: st) simp_all

lemma urls_fold_apply [simp]:
  "urls (current (fold (apply_result stamp now) rs st)) = urls (current st)"
  by (induction rs arbitrary: st) simp_all

text \<open>
  The batches, one after another, give the results of one pass over all plugins: one
  result per plugin, in order, and dependent on the plugins' download URLs only.
\<close>

lemma Promise_all_append:
  "Promise_all (xs @ ys) s =
     (case Promise_all xs s of (r1, s1) \<Rightarrow> (case Promise_all ys s1 of (r2, s2) \<Rightarrow> (r1 @ r2, s2)))"
  by (induction xs arbitrary: s) (auto split: prod.splits)

lemma slice_batch:
  assumes "i < length ps"
  shows "slice ps i (length ps) = slice ps i (i + CONCURRENCY) @ slice ps (i + CONCURRENCY) (length ps)"
proof (cases "i + CONCURRENCY \<le> length ps")
  case True
  then have "[i..<length ps] = [i..<i + CONCURRENCY] @ [i + CONCURRENCY..<length ps]"
    by (metis le_add1 le_Suc_ex upt_add_eq_append)
  then show ?thesis using True by (simp add: slice_def min_def)
next
  case False
  then show ?thesis by (simp add: slice_def min_def)
qed

lemma fetch_loop_flat:
  "fetch_loop URL net token ps i results tr =
     (case Promise_all (map (getDownloadCountForPlugin URL net token) (slice ps i (length ps))) tr of
        (rs, tr') \<Rightarrow> (results @ rs, tr'))"
proof (induction URL net token ps i results tr rule: fetch_loop.induct)
  case (1 URL net token ps i results tr)
  show ?case
  proof (cases "i < length ps")
    case False
    then show ?thesis by (subst fetch_loop.simps) (simp add: slice_def)
  next
    case True
    obtain rs1 tr1 where b: "Promise_all (map (getDownloadCountForPlugin URL net token)
        (slice ps i (i + CONCURRENCY))) tr = (rs1, tr1)"
      by (cases "Promise_all (map (getDownloadCountForPlugin URL net token)
        (slice ps i (i + CONCURRENCY))) tr") blast
    have ih: "fetch_loop URL net token ps (i + CONCURRENCY) (results @ rs1) tr1 =
       (case Promise_all (map (getDownloadCountForPlugin URL net token)
               (slice ps (i + CONCURRENCY) (length ps))) tr1 of
          (rs, tr') \<Rightarrow> ((results @ rs1) @ rs, tr'))"
      by (rule "1.IH"[OF True refl b[symmetric]])
    have "fetch_loop URL net token ps i results tr
            = fetch_loop URL net token ps (i + CONCURRENCY) (results @ rs1) tr1"
      using True b by (subst fetch_loop.simps) simp
    also note ih
    finally show ?thesis
      using b by (simp add: slice_batch[OF True] Promise_all_append split: prod.splits)
  qed
qed

lemma plugin_getDownloadCountForPlugin [simp]:
  "plugin (fst (getDownloadCountForPlugin URL net token p tr)) = fst p"
  by (simp add: getDownloadCountForPlugin_def split: option.splits prod.splits sum.splits)

lemma plugin_Promise_all:
  "map plugin (fst (Promise_all (map (getDownloadCountForPlugin URL net token) b) tr)) = map fst b"
proof (induction b arbitrary: tr)
  case Nil
  then show ?case by simp
next
  case (Cons p b)
  obtain r s1 where r: "getDownloadCountForPlugin URL net token p tr = (r, s1)"
    by (cases "getDownloadCountForPlugin URL net token p tr") blast
  obtain rs s2 where rs: "Promise_all (map (getDownloadCountForPlugin URL net token) b) s1 = (rs, s2)"
    by (cases "Promise_all (map (getDownloadCountForPlugin URL net token) b) s1") blast
  have "plugin r = fst p" using plugin_getDownloadCountForPlugin[of URL net token p tr] r by simp
  moreover have "map plugin rs = map fst b" using Cons.IH[of s1] rs by simp
  ultimately show ?case using r rs by simp
qed

lemma plugin_fetch_results:
  "map plugin (fetch_results URL net token ps) = [0..<length ps]"
proof -
  have "map fst (slice ps 0 (length ps)) = [0..<length ps]"
    by (simp add: slice_def comp_def)
  then show ?thesis
    using plugin_Promise_all[of URL net token "slice ps 0 (length ps)" "[]"]
    by (simp add: fetch_results_def fetch_loop_flat split: prod.splits)
qed

lemma length_fetch_results [simp]: "length (fetch_results URL net token ps) = length ps"
  using arg_cong[OF plugin_fetch_results, of length URL net token ps] by simp

lemma plugin_nth_fetch_results:
  "k < length ps \<Longrightarrow> plugin (fetch_results URL net token ps ! k) = k"
  using arg_cong[OF plugin_fetch_results, of "\<lambda>xs. xs ! k" URL net token ps] by simp

lemma getDownloadCountForPlugin_cong:
  "map_of p ''downloadUrl'' = map_of q ''downloadUrl'' \<Longrightarrow>
   getDownloadCountForPlugin URL net token (k, p) = getDownloadCountForPlugin URL net token (k, q)"
  by (rule ext) (simp add: getDownloadCountForPlugin_def split: option.splits prod.splits sum.splits)

lemma fetch_loop_cong:
  assumes "urls ps = urls ps'"
  shows "fetch_loop URL net token ps 0 [] [] = fetch_loop URL net token ps' 0 [] []"
proof -
  from assms have len: "length ps = length ps'" by (metis urls_def length_map)
  have nth: "map_of (ps ! k) ''downloadUrl'' = map_of (ps' ! k) ''downloadUrl''" if "k < length ps" for k
  proof -
    have "urls ps ! k = map_of (ps ! k) ''downloadUrl''" using that by (simp add: urls_def)
    moreover have "urls ps' ! k = map_of (ps' ! k) ''downloadUrl''" using that len by (simp add: urls_def)
    ultimately show ?thesis using assms by simp
  qed
  have "map (getDownloadCountForPlugin URL net token) (map (\<lambda>k. (k, ps ! k)) [0..<length ps])
      = map (getDownloadCountForPlugin URL net token) (map (\<lambda>k. (k, ps' ! k)) [0..<length ps])"
    unfolding map_map
  proof (rule map_cong[OF refl])
    fix k assume "k \<in> set [0..<length ps]"
    then have "k < length ps" by simp
    from getDownloadCountForPlugin_cong[OF nth[OF this]]
    show "(getDownloadCountForPlugin URL net token \<circ> (\<lambda>k. (k, ps ! k))) k
        = (getDownloadCountForPlugin URL net token \<circ> (\<lambda>k. (k, ps' ! k))) k"
      by simp
  qed
  then have "map (getDownloadCountForPlugin URL net token) (slice ps 0 (length ps))
      = map (getDownloadCountForPlugin URL net token) (slice ps' 0 (length ps'))"
    by (simp only: slice_def len[symmetric] min.idem)
  then show ?thesis by (simp only: fetch_loop_flat)
qed

lemma fetch_results_cong:
  "urls ps = urls ps' \<Longrightarrow> fetch_results URL net token ps = fetch_results URL net token ps'"
  unfolding fetch_results_def by (rule arg_cong[OF fetch_loop_cong])

text \<open>
  When every plugin is found at its own index and no two results share a plugin, the loop
  updates each plugin once, from its own result.
\<close>

lemma own_index_apply_result:
  assumes "\<forall>k<length (current st). findIndex (current st) k = Some k"
  shows "\<forall>k<length (current (apply_result stamp now r st)).
           findIndex (current (apply_result stamp now r st)) k = Some k"
proof (intro allI impI)
  fix k assume "k < length (current (apply_result stamp now r st))"
  then have k: "k < length (current st)" by simp
  have "findIndex (current (apply_result stamp now r st)) k = findIndex (current st) k"
    by (rule findIndex_cong) (simp_all add: k)
  with assms k show "findIndex (current (apply_result stamp now r st)) k = Some k" by simp
qed

lemma apply_result_own_index:
  assumes "findIndex (current st) (plugin r) = Some (plugin r)"
  shows "current (apply_result stamp now r st)
           = (current st)[plugin r := updated_plugin stamp now r (current st ! plugin r)]"
    and "hasAnyChange (apply_result stamp now r st)
           = (hasAnyChange st \<or> count_changes r (current st ! plugin r) \<or> stamp)"
  using assms by (simp_all add: apply_result_eq)

lemma fold_apply_unique:
  assumes "\<forall>k<length (current st). findIndex (current st) k = Some k"
    and "\<forall>r\<in>set rs. plugin r < length (current st)"
    and "distinct (map plugin rs)"
  shows "(\<forall>k<length (current st).
            current (fold (apply_result stamp now) rs st) ! k
              = (case find (\<lambda>r. plugin r = k) rs of
                   None \<Rightarrow> current st ! k
                 | Some r \<Rightarrow> updated_plugin stamp now r (current st ! k)))
       \<and> hasAnyChange (fold (apply_result stamp now) rs st)
           = (hasAnyChange st \<or> (\<exists>r\<in>set rs. count_changes r (current st ! plugin r) \<or> stamp))"
  using assms
proof (induction rs arbitrary: st)
  case Nil
  then show ?case by simp
next
  case (Cons r rs)
  let ?i = "plugin r"
  let ?st1 = "apply_result stamp now r st"
  have i: "?i < length (current st)" using Cons.prems(2) by simp
  then have fi: "findIndex (current st) ?i = Some ?i" using Cons.prems(1) by simp
  note st1 = apply_result_own_index[OF fi, of stamp now]
  have own1: "\<forall>k<length (current ?st1). findIndex (current ?st1) k = Some k"
    by (rule own_index_apply_result[OF Cons.prems(1)])
  have lt1: "\<forall>r'\<in>set rs. plugin r' < length (current ?st1)" using Cons.prems(2) by simp
  have d1: "distinct (map plugin rs)" using Cons.prems(3) by simp
  have fresh: "\<forall>r'\<in>set rs. plugin r' \<noteq> ?i" using Cons.prems(3) by (auto simp: image_iff)
  note ih = Cons.IH[OF own1 lt1 d1]
  have nth: "current (fold (apply_result stamp now) (r # rs) st) ! k
              = (case find (\<lambda>r. plugin r = k) (r # rs) of
                   None \<Rightarrow> current st ! k
                 | Some r \<Rightarrow> updated_plugin stamp now r (current st ! k))"
    if k: "k < length (current st)" for k
  proof -
    have k1: "k < length (current ?st1)" using k by simp
    from ih k1 have e: "current (fold (apply_result stamp now) rs ?st1) ! k
              = (case find (\<lambda>r. plugin r = k) rs of
                   None \<Rightarrow> current ?st1 ! k
                 | Some r \<Rightarrow> updated_plugin stamp now r (current ?st1 ! k))"
      by blast
    show ?thesis
    proof (cases "k = ?i")
      case True
      have "find (\<lambda>r. plugin r = k) rs = None" using fresh True by (simp add: find_None_iff)
      then show ?thesis using e True i by (simp add: st1(1))
    next
      case False
      then have "current ?st1 ! k = current st ! k" by (simp add: st1(1))
      then show ?thesis using e False by (auto split: option.splits)
    qed
  qed
  have same: "current ?st1 ! plugin r' = current st ! plugin r'" if "r' \<in> set rs" for r'
  proof -
    from fresh that have "plugin r \<noteq> plugin r'" by auto
    then show ?thesis by (simp add: st1(1))
  qed
  have "hasAnyChange (fold (apply_result stamp now) (r # rs) st)
          = (hasAnyChange ?st1 \<or> (\<exists>r'\<in>set rs. count_changes r' (current ?st1 ! plugin r') \<or> stamp))"
    using ih by simp
  also have "\<dots> = (hasAnyChange st \<or> (\<exists>r'\<in>set (r # rs). count_changes r' (current st ! plugin r') \<or> stamp))"
    using same by (auto simp: st1(2))
  finally show ?case using nth by blast
qed

text \<open>With \<open>updatePluginTime\<close>, a plugin once stamped stays stamped.\<close>

lemma stamp_kept:
  assumes "map_of (current st ! i) ''updateTime'' = Some (JStr now)"
  shows "map_of (current (apply_result True now r st) ! i) ''updateTime'' = Some (JStr now)"
proof (cases "findIndex (current st) (plugin r)")
  case None
  then show ?thesis using assms by (simp add: apply_result_eq)
next
  case (Some j)
  then have j: "j < length (current st)" by (rule findIndex_Some_lt)
  show ?thesis
  proof (cases "i = j")
    case True
    then show ?thesis using Some j by (simp add: apply_result_eq updated_plugin_time)
  next
    case False
    then show ?thesis using Some assms by (simp add: apply_result_eq)
  qed
qed

lemma stamp_kept_fold:
  "map_of (current st ! i) ''updateTime'' = Some (JStr now) \<Longrightarrow>
   map_of (current (fold (apply_result True now) rs st) ! i) ''updateTime'' = Some (JStr now)"
  by (induction rs arbitrary: st) (simp_all add: stamp_kept)

lemma stamp_set:
  assumes "findIndex (current st) (plugin r) = Some i"
  shows "map_of (current (apply_result True now r st) ! i) ''updateTime'' = Some (JStr now)"
  using assms findIndex_Some_lt[OF assms] by (simp add: apply_result_eq updated_plugin_time)

lemma stamp_fold:
  assumes "r \<in> set rs" "\<forall>r\<in>set rs. plugin r < length (current st)"
    and "findIndex (current st) (plugin r) = Some i"
  shows "map_of (current (fold (apply_result True now) rs st) ! i) ''updateTime'' = Some (JStr now)"
  using assms
proof (induction rs arbitrary: st)
  case Nil
  then show ?case by simp
next
  case (Cons x xs)
  let ?st1 = "apply_result True now x st"
  show ?case
  proof (cases "r = x")
    case True
    with Cons.prems(3) have "map_of (current ?st1 ! i) ''updateTime'' = Some (JStr now)"
      by (simp add: stamp_set)
    then show ?thesis by (simp add: stamp_kept_fold)
  next
    case False
    with Cons.prems(1) have r: "r \<in> set xs" by simp
    have lt: "\<forall>r\<in>set xs. plugin r < length (current ?st1)" using Cons.prems(2) by simp
    have "findIndex (current ?st1) (plugin r) = findIndex (current st) (plugin r)"
      by (rule findIndex_cong) (use Cons.prems(2) r in simp_all)
    with Cons.prems(3) have fi: "findIndex (current ?st1) (plugin r) = Some i" by simp
    from Cons.IH[OF r lt fi] show ?thesis by simp
  qed
qed

lemma hasAnyChange_kept:
  "hasAnyChange st \<Longrightarrow> hasAnyChange (fold (apply_result stamp now) rs st)"
  by (induction rs arbitrary: st) (simp_all add: apply_result_eq split: option.splits)

lemma hasAnyChange_stamp:
  assumes "rs \<noteq> []" "\<forall>r\<in>set rs. plugin r < length (current st)"
  shows "hasAnyChange (fold (apply_result True now) rs st)"
proof -
  from assms(1) obtain r rs' where rs: "rs = r # rs'" by (cases rs) auto
  with assms(2) have "plugin r < length (current st)" by simp
  from findIndex_le[OF this] obtain i where "findIndex (current st) (plugin r) = Some i" by blast
  then have "hasAnyChange (apply_result True now r st)" by (simp add: apply_result_eq)
  then show ?thesis unfolding rs by (simp add: hasAnyChange_kept)
qed

lemma find_by_plugin:
  assumes "map plugin rs = [0..<n]" "k < n"
  shows "find (\<lambda>r. plugin r = k) rs = Some (rs ! k)"
proof -
  from assms(1) have len: "length rs = n" by (metis length_map length_upt minus_nat.diff_0)
  have nth: "plugin (rs ! j) = j" if "j < n" for j
    using arg_cong[OF assms(1), of "\<lambda>xs. xs ! j"] that len by simp
  show ?thesis
    unfolding find_Some_iff
  proof (intro exI[of _ k] conjI allI impI)
    show "k < length rs" using assms(2) len by simp
    show "plugin (rs ! k) = k" using nth assms(2) by simp
    show "rs ! k = rs ! k" by simp
    fix j assume "j < k"
    then show "plugin (rs ! j) \<noteq> k" using nth[of j] assms(2) by simp
  qed
qed

lemma loop_result:
  assumes own: "\<forall>k<length ps. findIndex ps k = Some k"
    and rs: "map plugin rs = [0..<length ps]"
  shows "length (current (fold (apply_result stamp now) rs
            \<lparr>current = ps, downloadCountUpdated = 0, hasAnyChange = False\<rparr>)) = length ps"
    and "\<forall>k<length ps. current (fold (apply_result stamp now) rs
            \<lparr>current = ps, downloadCountUpdated = 0, hasAnyChange = False\<rparr>) ! k
          = updated_plugin stamp now (rs ! k) (ps ! k)"
    and "hasAnyChange (fold (apply_result stamp now) rs
            \<lparr>current = ps, downloadCountUpdated = 0, hasAnyChange = False\<rparr>)
          = (\<exists>k<length ps. count_changes (rs ! k) (ps ! k) \<or> stamp)"
proof -
  let ?st = "\<lparr>current = ps, downloadCountUpdated = 0, hasAnyChange = False\<rparr>"
  from rs have len: "length rs = length ps" by (metis length_map length_upt minus_nat.diff_0)
  have nth: "plugin (rs ! j) = j" if "j < length ps" for j
    using arg_cong[OF rs, of "\<lambda>xs. xs ! j"] that len by simp
  have a1: "\<forall>k<length (current ?st). findIndex (current ?st) k = Some k" using own by simp
  have a2: "\<forall>r\<in>set rs. plugin r < length (current ?st)"
  proof
    fix r assume "r \<in> set rs"
    then have "plugin r \<in> set (map plugin rs)" by simp
    then show "plugin r < length (current ?st)" unfolding rs by simp
  qed
  have a3: "distinct (map plugin rs)" unfolding rs by simp
  note main = fold_apply_unique[OF a1 a2 a3, of stamp now]
  show "length (current (fold (apply_result stamp now) rs ?st)) = length ps" by simp
  show "\<forall>k<length ps. current (fold (apply_result stamp now) rs ?st) ! k
          = updated_plugin stamp now (rs ! k) (ps ! k)"
  proof (intro allI impI)
    fix k assume k: "k < length ps"
    with main have "current (fold (apply_result stamp now) rs ?st) ! k
              = (case find (\<lambda>r. plugin r = k) rs of
                   None \<Rightarrow> current ?st ! k
                 | Some r \<Rightarrow> updated_plugin stamp now r (current ?st ! k))"
      by simp
    then show "current (fold (apply_result stamp now) rs ?st) ! k
          = updated_plugin stamp now (rs ! k) (ps ! k)"
      by (simp add: find_by_plugin[OF rs k])
  qed
  have "(\<exists>r\<in>set rs. count_changes r (ps ! plugin r) \<or> stamp)
          = (\<exists>k<length ps. count_changes (rs ! k) (ps ! k) \<or> stamp)"
  proof
    assume "\<exists>r\<in>set rs. count_changes r (ps ! plugin r) \<or> stamp"
    then obtain j where "j < length rs" "count_changes (rs ! j) (ps ! plugin (rs ! j)) \<or> stamp"
      by (auto simp: in_set_conv_nth)
    then show "\<exists>k<length ps. count_changes (rs ! k) (ps ! k) \<or> stamp"
      using nth[of j] len by auto
  next
    assume "\<exists>k<length ps. count_changes (rs ! k) (ps ! k) \<or> stamp"
    then obtain k where k: "k < length ps" "count_changes (rs ! k) (ps ! k) \<or> stamp" by blast
    then have "rs ! k \<in> set rs" using len by simp
    moreover have "count_changes (rs ! k) (ps ! plugin (rs ! k)) \<or> stamp"
      using k nth[of k] by simp
    ultimately show "\<exists>r\<in>set rs. count_changes r (ps ! plugin r) \<or> stamp"
      by (rule bexI[rotated])
  qed
  then show "hasAnyChange (fold (apply_result stamp now) rs ?st)
          = (\<exists>k<length ps. count_changes (rs ! k) (ps ! k) \<or> stamp)"
    using main by simp
qed

lemma updateDownloadCounts_run:
  assumes "plugins_or_empty data \<noteq> []"
  shows "updateDownloadCounts URL net now (Parsed data) token stamp =
     \<lparr>ended = Normal (),
      saved = (if hasAnyChange (final_state URL net now data token stamp)
               then Some (data\<lparr>plugins := Some (current (final_state URL net now data token stamp))\<rparr>)
               else None),
      trace = snd (fetch_loop URL net token (plugins_or_empty data) 0 [] []),
      summary = downloadCountUpdated (final_state URL net now data token stamp)\<rparr>"
  using assms
  by (simp add: updateDownloadCounts_def final_state_def fetch_results_def plugins_or_empty_def
        Let_def split: prod.splits option.splits)

lemma updateDownloadCounts_empty:
  assumes "plugins_or_empty data = []"
  shows "updateDownloadCounts URL net now (Parsed data) token stamp =
     \<lparr>ended = Normal (), saved = None, trace = [], summary = 0\<rparr>"
  using assms
  by (simp add: updateDownloadCounts_def plugins_or_empty_def split: option.splits)

lemma final_state_unique:
  assumes "\<forall>k<length (plugins_or_empty data). findIndex (plugins_or_empty data) k = Some k"
  shows "length (current (final_state URL net now data token stamp)) = length (plugins_or_empty data)"
    and "\<forall>k<length (plugins_or_empty data).
           current (final_state URL net now data token stamp) ! k
             = updated_plugin stamp (getBeijingTime now)
                 (fetch_results URL net token (plugins_or_empty data) ! k) (plugins_or_empty data ! k)"
    and "hasAnyChange (final_state URL net now data token stamp)
           = (\<exists>k<length (plugins_or_empty data).
                 count_changes (fetch_results URL net token (plugins_or_empty data) ! k)
                   (plugins_or_empty data ! k) \<or> stamp)"
  unfolding final_state_def
  using loop_result[OF assms plugin_fetch_results, of stamp "getBeijingTime now" URL net token]
  by blast+

lemma stored_count_idem:
  "or_else (Some (stored_count p)) (JNum 0) = stored_count p"
  by (cases "map_of p ''downloadCount''"; cases "the (map_of p ''downloadCount'')")
     (auto simp: stored_count_def or_else_def)

lemma stored_count_updated_error:
  "has_error r \<Longrightarrow> stored_count (updated_plugin stamp now r p) = stored_count p"
  using stored_count_idem[of p]
  by (simp add: stored_count_def[of "updated_plugin stamp now r p"] updated_plugin_count)

lemma count_changes_updated:
  "\<not> count_changes r (updated_plugin False now r p)"
  by (cases "count r") (simp_all add: count_changes_def updated_plugin_count strict_equals_def js_count_def)

subsection \<open>The update time\<close>

lemma is_digit_digit: "0 \<le> d \<Longrightarrow> d < 10 \<Longrightarrow> is_digit (digit d)"
proof -
  assume "0 \<le> d" "d < 10"
  then have "nat d < length ''0123456789''" by simp
  then have "''0123456789'' ! nat d \<in> set ''0123456789''" by (rule nth_mem)
  then show ?thesis by (simp only: is_digit_def digit_def)
qed

lemma pad_3: "pad 3 n = [digit (n div 10 div 10 mod 10), digit (n div 10 mod 10), digit (n mod 10)]"
  by (simp add: numeral_3_eq_3)

lemma replace_ms_Z_suffix:
  assumes "is_digit d1" "is_digit d2" "is_digit d3"
  shows "replace_ms_Z (body @ [CHR ''.'', d1, d2, d3, CHR ''Z'']) = body @ ''+08:00''"
  using assms by (simp add: replace_ms_Z_def nth_append)

lemma getBeijingTime_format:
  "getBeijingTime now = date_time (now + 28800000) @ ''+08:00''"
proof -
  let ?t = "now + 28800000"
  have "toISOString ?t = date_time ?t
          @ [CHR ''.'', digit (?t mod 1000 div 10 div 10 mod 10), digit (?t mod 1000 div 10 mod 10),
             digit (?t mod 1000 mod 10), CHR ''Z'']"
    by (simp add: toISOString_def pad_3)
  moreover have "is_digit (digit (?t mod 1000 div 10 div 10 mod 10))"
    "is_digit (digit (?t mod 1000 div 10 mod 10))" "is_digit (digit (?t mod 1000 mod 10))"
    by (rule is_digit_digit; simp)+
  ultimately have "replace_ms_Z (toISOString ?t) = date_time ?t @ ''+08:00''"
    by (simp only: replace_ms_Z_suffix)
  then show ?thesis by (simp add: getBeijingTime_def)
qed

text \<open>
  Claim C7: with \<open>updatePluginTime\<close> set and at least one plugin, the document is written
  whatever the counts are. Every plugin that \<open>findIndex\<close> matches for some result has its
  \<open>updateTime\<close> set to \<open>getBeijingTime now\<close>; with unique ids that is every plugin. The
  time is the date and time of the clock eight hours on, to the second, followed by
  \<open>+08:00\<close>.
\<close>

theorem stamp_update_time:
  assumes "plugins_or_empty data \<noteq> []"
  shows "\<exists>doc. saved (updateDownloadCounts URL net now (Parsed data) token True) = Some doc
      \<and> length (plugins_or_empty doc) = length (plugins_or_empty data)
      \<and> (\<forall>k<length (plugins_or_empty data).
            \<exists>i. findIndex (plugins_or_empty data) k = Some i
              \<and> map_of (plugins_or_empty doc ! i) ''updateTime'' = Some (JStr (getBeijingTime now)))
      \<and> (unique_ids (plugins_or_empty data) \<longrightarrow>
            (\<forall>k<length (plugins_or_empty data).
               map_of (plugins_or_empty doc ! k) ''updateTime'' = Some (JStr (getBeijingTime now))))
      \<and> getBeijingTime now = date_time (now + 28800000) @ ''+08:00''"
proof -
  let ?ps = "plugins_or_empty data"
  let ?rs = "fetch_results URL net token ?ps"
  let ?st0 = "\<lparr>current = ?ps, downloadCountUpdated = 0, hasAnyChange = False\<rparr>"
  let ?fin = "final_state URL net now data token True"
  let ?doc = "data\<lparr>plugins := Some (current ?fin)\<rparr>"
  have fin: "?fin = fold (apply_result True (getBeijingTime now)) ?rs ?st0"
    by (simp add: final_state_def)
  have lt: "\<forall>r\<in>set ?rs. plugin r < length (current ?st0)"
  proof
    fix r assume "r \<in> set ?rs"
    then have "plugin r \<in> set (map plugin ?rs)" by simp
    then show "plugin r < length (current ?st0)" by (simp add: plugin_fetch_results)
  qed
  have ne: "?rs \<noteq> []" using assms by (metis length_fetch_results length_0_conv)
  have change: "hasAnyChange ?fin" unfolding fin by (rule hasAnyChange_stamp[OF ne lt])
  then have saved: "saved (updateDownloadCounts URL net now (Parsed data) token True) = Some ?doc"
    by (simp add: updateDownloadCounts_run[OF assms])
  have po: "plugins_or_empty ?doc = current ?fin" by (simp add: plugins_or_empty_def)
  have len: "length (plugins_or_empty ?doc) = length ?ps" unfolding po by (simp add: fin)
  have each: "\<exists>i. findIndex ?ps k = Some i
              \<and> map_of (plugins_or_empty ?doc ! i) ''updateTime'' = Some (JStr (getBeijingTime now))"
    if k: "k < length ?ps" for k
  proof -
    from findIndex_le[OF k] obtain i where i: "findIndex ?ps k = Some i" by blast
    have mem: "?rs ! k \<in> set ?rs" using k by simp
    have pk: "plugin (?rs ! k) = k" by (rule plugin_nth_fetch_results[OF k])
    have "findIndex (current ?st0) (plugin (?rs ! k)) = Some i" using i pk by simp
    from stamp_fold[OF mem lt this]
    have "map_of (current ?fin ! i) ''updateTime'' = Some (JStr (getBeijingTime now))"
      by (simp add: fin)
    with i show ?thesis by (simp add: po)
  qed
  have uniq: "map_of (plugins_or_empty ?doc ! k) ''updateTime'' = Some (JStr (getBeijingTime now))"
    if "unique_ids ?ps" "k < length ?ps" for k
    using each[OF that(2)] findIndex_unique[OF that] by simp
  show ?thesis
  proof (intro exI[of _ ?doc] conjI allI impI)
    show "saved (updateDownloadCounts URL net now (Parsed data) token True) = Some ?doc"
      by (rule saved)
    show "getBeijingTime now = date_time (now + 28800000) @ ''+08:00''"
      by (rule getBeijingTime_format)
  qed (use len each uniq in blast)+
qed

theorem stamp_update_time_witness:
  "\<exists>doc. saved (updateDownloadCounts example_URL example_net 0 (Parsed example_registry) None True)
            = Some doc
      \<and> map_of (plugins_or_empty doc ! 2) ''updateTime'' = Some (JStr ''1970-01-01T08:00:00+08:00'')"
proof -
  have ne: "plugins_or_empty example_registry \<noteq> []" by code_simp
  have u: "unique_ids (plugins_or_empty example_registry)" by code_simp
  have k: "2 < length (plugins_or_empty example_registry)" by code_simp
  have t: "getBeijingTime 0 = ''1970-01-01T08:00:00+08:00''" by code_simp
  from stamp_update_time[OF ne, of example_URL example_net 0 None] u k
  show ?thesis unfolding t by blast
qed

subsection \<open>Failed fetches and skipped writes\<close>

lemma own_index_unique:
  "unique_ids ps \<Longrightarrow> \<forall>k<length ps. findIndex ps k = Some k"
  by (simp add: findIndex_unique)

lemma count_changes_differs:
  assumes "count_changes r p"
  shows "map_of p ''downloadCount'' \<noteq> Some (js_count r)"
proof
  assume "map_of p ''downloadCount'' = Some (js_count r)"
  then have "strict_equals (map_of p ''downloadCount'') (Some (js_count r))"
    by (cases "count r") (simp_all add: strict_equals_def js_count_def)
  with assms show False by (simp add: count_changes_def)
qed

lemma no_change_same_count:
  assumes "\<not> count_changes r p" "\<not> has_error r"
  shows "map_of p ''downloadCount'' = Some (js_count r)"
  using assms by (simp add: count_changes_def strict_equals_def)

lemma js_count_success: "count r = Some c \<Longrightarrow> js_count r = JNum c"
  by (simp add: js_count_def)

lemma has_error_None: "error r = None \<Longrightarrow> \<not> has_error r"
  by (simp add: has_error_def)

lemma stored_count_number: "map_of p ''downloadCount'' = Some (JNum n) \<Longrightarrow> stored_count p = JNum n"
  by (simp add: stored_count_def or_else_def)

lemma Promise_all_nth:
  "k < length b \<Longrightarrow> \<exists>tr'. fst (Promise_all (map f b) tr) ! k = fst (f (b ! k) tr')"
proof (induction b arbitrary: k tr)
  case Nil
  then show ?case by simp
next
  case (Cons p b)
  obtain r s1 where r: "f p tr = (r, s1)" by (cases "f p tr") blast
  obtain rs s2 where rs: "Promise_all (map f b) s1 = (rs, s2)"
    by (cases "Promise_all (map f b) s1") blast
  show ?case
  proof (cases k)
    case 0
    have "fst (Promise_all (map f (p # b)) tr) ! 0 = fst (f ((p # b) ! 0) tr)"
      using r rs by simp
    then show ?thesis unfolding 0 by blast
  next
    case (Suc k')
    with Cons.prems have "k' < length b" by simp
    from Cons.IH[OF this, of s1] obtain tr' where
      "fst (Promise_all (map f b) s1) ! k' = fst (f (b ! k') tr')" by blast
    then have "fst (Promise_all (map f (p # b)) tr) ! Suc k' = fst (f ((p # b) ! Suc k') tr')"
      using r rs by simp
    then show ?thesis unfolding Suc by blast
  qed
qed

lemma fetch_results_nth:
  assumes "k < length ps"
  shows "\<exists>tr. fetch_results URL net token ps ! k
           = fst (getDownloadCountForPlugin URL net token (k, ps ! k) tr)"
proof -
  have len: "k < length (slice ps 0 (length ps))" using assms by (simp add: slice_def)
  have at: "slice ps 0 (length ps) ! k = (k, ps ! k)" using assms by (simp add: slice_def)
  from Promise_all_nth[OF len, of "getDownloadCountForPlugin URL net token" "[]"] at
  obtain tr where "fst (Promise_all (map (getDownloadCountForPlugin URL net token)
        (slice ps 0 (length ps))) []) ! k = fst (getDownloadCountForPlugin URL net token (k, ps ! k) tr)"
    by auto
  then show ?thesis by (auto simp: fetch_results_def fetch_loop_flat split: prod.splits)
qed

text \<open>
  The two ways a plugin's fetch fails. A URL that does not resolve gives a result with
  an error. So do retries that are exhausted, when every rejection carries a message, as
  the errors of the platform's \<open>fetch\<close> do.
\<close>

lemma unresolvable_has_error:
  assumes "k < length ps" "extractGitHubRepo URL (map_of (ps ! k) ''downloadUrl'') = None"
  shows "has_error (fetch_results URL net token ps ! k)"
proof -
  from fetch_results_nth[OF assms(1)] obtain tr where
    "fetch_results URL net token ps ! k = fst (getDownloadCountForPlugin URL net token (k, ps ! k) tr)"
    by blast
  then show ?thesis using assms(2) by (simp add: getDownloadCountForPlugin_def has_error_def)
qed

lemma exhausted_retries_has_error:
  assumes "k < length ps"
    and "extractGitHubRepo URL (map_of (ps ! k) ''downloadUrl'') = Some info"
    and "\<forall>h. case net h (releases_request (owner info) (repo info) token) of
               Rejected msg \<Rightarrow> msg \<noteq> []
             | Response code statusText body \<Rightarrow> \<not> ok code"
  shows "has_error (fetch_results URL net token ps ! k)"
proof -
  let ?req = "releases_request (owner info) (repo info) token"
  from fetch_results_nth[OF assms(1)] obtain tr where
    tr: "fetch_results URL net token ps ! k = fst (getDownloadCountForPlugin URL net token (k, ps ! k) tr)"
    by blast
  have fails: "failing (net h ?req)" for h
    using assms(3)[rule_format, of h] by (simp add: failing_def split: fetched.splits)
  then have "\<forall>n\<le>RETRY_TIMES. failing (net (tr @ concat (replicate n [Request ?req, Delay RETRY_DELAY])) ?req)"
    by blast
  from fetchWithRetry_all_fail[where net = net and req = ?req and tr = tr and retry = RETRY_TIMES, OF this]
  obtain err where err:
    "fetchWithRetry net ?req RETRY_TIMES tr
       = (Inl err, tr @ concat (replicate RETRY_TIMES [Request ?req, Delay RETRY_DELAY]) @ [Request ?req])"
    "attempt net ?req (tr @ concat (replicate RETRY_TIMES [Request ?req, Delay RETRY_DELAY])) = Inl err"
    by blast
  have "message_truthy err"
    using err(2) assms(3)[rule_format, of "tr @ concat (replicate RETRY_TIMES [Request ?req, Delay RETRY_DELAY])"]
    by (auto simp: attempt_def split: fetched.splits if_splits)
  then show ?thesis
    using err(1) assms(2) by (simp add: tr getDownloadCountForPlugin_def fetchGitHubReleases_def has_error_def)
qed

text \<open>
  Claim C4: let the ids be unique and let the result of plugin \<open>k\<close> carry an error (its
  URL does not resolve, or its last attempt failed). The run ends normally. In the file
  after the run, plugin \<open>k\<close> has the stored count it had before (an absent count read as
  0), and a numeric \<open>downloadCount\<close> is exactly as it was. Every other plugin is still
  processed: one whose result has a count and no error has that count in the file.
\<close>

theorem reconcile_keeps_count_on_failure:
  assumes "unique_ids (plugins_or_empty data)"
    and "k < length (plugins_or_empty data)"
    and "has_error (fetch_results URL net token (plugins_or_empty data) ! k)"
  shows "ended (updateDownloadCounts URL net now (Parsed data) token stamp) = Normal ()
      \<and> length (plugins_on_disk (file_after (Parsed data)
            (updateDownloadCounts URL net now (Parsed data) token stamp)))
          = length (plugins_or_empty data)
      \<and> stored_count (plugins_on_disk (file_after (Parsed data)
            (updateDownloadCounts URL net now (Parsed data) token stamp)) ! k)
          = stored_count (plugins_or_empty data ! k)
      \<and> (\<forall>n. map_of (plugins_or_empty data ! k) ''downloadCount'' = Some (JNum n) \<longrightarrow>
            map_of (plugins_on_disk (file_after (Parsed data)
              (updateDownloadCounts URL net now (Parsed data) token stamp)) ! k) ''downloadCount''
              = Some (JNum n))
      \<and> (\<forall>j<length (plugins_or_empty data). \<forall>c.
            error (fetch_results URL net token (plugins_or_empty data) ! j) = None \<longrightarrow>
            count (fetch_results URL net token (plugins_or_empty data) ! j) = Some c \<longrightarrow>
            map_of (plugins_on_disk (file_after (Parsed data)
              (updateDownloadCounts URL net now (Parsed data) token stamp)) ! j) ''downloadCount''
              = Some (JNum c))"
proof -
  let ?ps = "plugins_or_empty data"
  let ?rs = "fetch_results URL net token ?ps"
  let ?fin = "final_state URL net now data token stamp"
  let ?run = "updateDownloadCounts URL net now (Parsed data) token stamp"
  let ?disk = "plugins_on_disk (file_after (Parsed data) ?run)"
  from assms(2) have ne: "?ps \<noteq> []" by auto
  note run = updateDownloadCounts_run[OF ne, of URL net now token stamp]
  note fin = final_state_unique[OF own_index_unique[OF assms(1)], of URL net now token stamp]
  have ended: "ended ?run = Normal ()" by (simp add: run)
  show ?thesis
  proof (cases "hasAnyChange ?fin")
    case True
    then have disk: "?disk = current ?fin"
      by (simp add: run file_after_def plugins_on_disk_def plugins_or_empty_def)
    have at: "?disk ! j = updated_plugin stamp (getBeijingTime now) (?rs ! j) (?ps ! j)"
      if "j < length ?ps" for j
      using fin(2) that by (simp add: disk)
    have c1: "length ?disk = length ?ps" by (simp add: disk fin(1))
    have c2: "stored_count (?disk ! k) = stored_count (?ps ! k)"
      by (simp add: at[OF assms(2)] stored_count_updated_error[OF assms(3)])
    have c3: "map_of (?disk ! k) ''downloadCount'' = Some (JNum n)"
      if "map_of (?ps ! k) ''downloadCount'' = Some (JNum n)" for n
      by (simp add: at[OF assms(2)] updated_plugin_count assms(3) stored_count_number[OF that])
    have c4: "map_of (?disk ! j) ''downloadCount'' = Some (JNum c)"
      if "j < length ?ps" "error (?rs ! j) = None" "count (?rs ! j) = Some c" for j c
      by (simp add: at[OF that(1)] updated_plugin_count has_error_None[OF that(2)]
            js_count_success[OF that(3)])
    from ended c1 c2 c3 c4 show ?thesis by blast
  next
    case False
    then have disk: "?disk = ?ps"
      by (simp add: run file_after_def plugins_on_disk_def)
    from False fin(3) have nochange: "\<not> count_changes (?rs ! j) (?ps ! j)" if "j < length ?ps" for j
      using that by blast
    have c4: "map_of (?disk ! j) ''downloadCount'' = Some (JNum c)"
      if "j < length ?ps" "error (?rs ! j) = None" "count (?rs ! j) = Some c" for j c
      using no_change_same_count[OF nochange[OF that(1)] has_error_None[OF that(2)]]
      by (simp add: disk js_count_success[OF that(3)])
    have c1: "length ?disk = length ?ps" by (simp add: disk)
    have c2: "stored_count (?disk ! k) = stored_count (?ps ! k)" by (simp add: disk)
    have c3: "map_of (?disk ! k) ''downloadCount'' = Some (JNum n)"
      if "map_of (?ps ! k) ''downloadCount'' = Some (JNum n)" for n
      using that by (simp add: disk)
    from ended c1 c2 c3 c4 show ?thesis by blast
  qed
qed

text \<open>
  Claim C5, amended: without \<open>updatePluginTime\<close> and with unique ids, the document is
  written only if the \<open>downloadCount\<close> of some plugin differs from the one read, and a
  second run on the file the first run left, against the same network, writes nothing.
\<close>

theorem reconcile_writes_only_changes:
  assumes "unique_ids (plugins_or_empty data)"
  shows "(\<forall>doc. saved (updateDownloadCounts URL net now (Parsed data) token False) = Some doc \<longrightarrow>
            (\<exists>k<length (plugins_or_empty data).
                map_of (plugins_or_empty doc ! k) ''downloadCount''
                  \<noteq> map_of (plugins_or_empty data ! k) ''downloadCount''))
       \<and> saved (updateDownloadCounts URL net now'
            (file_after (Parsed data) (updateDownloadCounts URL net now (Parsed data) token False))
            token False) = None"
proof (cases "plugins_or_empty data = []")
  case True
  then show ?thesis by (simp add: updateDownloadCounts_empty file_after_def)
next
  case ne: False
  let ?ps = "plugins_or_empty data"
  let ?rs = "fetch_results URL net token ?ps"
  let ?fin = "final_state URL net now data token False"
  let ?run = "updateDownloadCounts URL net now (Parsed data) token False"
  let ?doc = "data\<lparr>plugins := Some (current ?fin)\<rparr>"
  note run = updateDownloadCounts_run[OF ne, of URL net now token False]
  note own = own_index_unique[OF assms]
  note fin = final_state_unique[OF own, of URL net now token False]
  have po: "plugins_or_empty ?doc = current ?fin" by (simp add: plugins_or_empty_def)
  have first: "\<exists>k<length ?ps. map_of (plugins_or_empty doc ! k) ''downloadCount''
                  \<noteq> map_of (?ps ! k) ''downloadCount''"
    if "saved ?run = Some doc" for doc
  proof -
    from that have ch: "hasAnyChange ?fin" and doc: "doc = ?doc"
      by (auto simp: run split: if_splits)
    from ch fin(3) obtain k where k: "k < length ?ps" "count_changes (?rs ! k) (?ps ! k)" by blast
    have "map_of (plugins_or_empty doc ! k) ''downloadCount'' = Some (js_count (?rs ! k))"
      using fin(2) k by (simp add: doc po updated_plugin_count count_changes_def)
    with count_changes_differs[OF k(2)] k(1) show ?thesis by auto
  qed
  have second: "saved (updateDownloadCounts URL net now' (file_after (Parsed data) ?run) token False) = None"
  proof (cases "hasAnyChange ?fin")
    case False
    then have "file_after (Parsed data) ?run = Parsed data" by (simp add: run file_after_def)
    moreover have "\<not> hasAnyChange (final_state URL net now' data token False)"
      using False fin(3) final_state_unique(3)[OF own, of URL net now' token False] by simp
    ultimately show ?thesis by (simp add: updateDownloadCounts_run[OF ne])
  next
    case True
    let ?ps1 = "current ?fin"
    have after: "file_after (Parsed data) ?run = Parsed ?doc" using True by (simp add: run file_after_def)
    have len1: "length ?ps1 = length ?ps" by (rule fin(1))
    have ne1: "plugins_or_empty ?doc \<noteq> []" using ne len1 by (simp add: po del: length_0_conv) auto
    have ids1: "ids ?ps1 = ids ?ps" by (simp add: final_state_def)
    have urls1: "urls ?ps1 = urls ?ps" by (simp add: final_state_def)
    have own1: "\<forall>k<length (plugins_or_empty ?doc). findIndex (plugins_or_empty ?doc) k = Some k"
    proof (intro allI impI)
      fix k assume "k < length (plugins_or_empty ?doc)"
      then have k: "k < length ?ps" by (simp add: po len1)
      have "findIndex ?ps k = findIndex ?ps1 k" by (rule findIndex_cong[OF ids1[symmetric] k])
      with own k show "findIndex (plugins_or_empty ?doc) k = Some k" by (simp add: po)
    qed
    have rs1: "fetch_results URL net token (plugins_or_empty ?doc) = ?rs"
      unfolding po by (rule fetch_results_cong[OF urls1])
    have "\<not> hasAnyChange (final_state URL net now' ?doc token False)"
    proof
      assume "hasAnyChange (final_state URL net now' ?doc token False)"
      with final_state_unique(3)[OF own1, of URL net now' token False]
      obtain k where k: "k < length (plugins_or_empty ?doc)"
        "count_changes (fetch_results URL net token (plugins_or_empty ?doc) ! k) (plugins_or_empty ?doc ! k)"
        by blast
      from k(1) have k': "k < length ?ps" by (simp add: po len1)
      from k(2)[unfolded rs1] have "count_changes (?rs ! k) (?ps1 ! k)" by (simp only: po)
      moreover have "?ps1 ! k = updated_plugin False (getBeijingTime now) (?rs ! k) (?ps ! k)"
        using fin(2) k' by simp
      ultimately show False using count_changes_updated by simp
    qed
    then show ?thesis by (simp add: after updateDownloadCounts_run[OF ne1])
  qed
  from first second show ?thesis by blast
qed

theorem reconcile_keeps_count_on_failure_witness:
  "has_error (fetch_results example_URL example_net None (plugins_or_empty example_registry) ! 1)
   \<and> map_of (plugins_or_empty example_registry ! 1) ''downloadCount'' = Some (JNum 5)
   \<and> map_of (plugins_on_disk (file_after (Parsed example_registry)
        (updateDownloadCounts example_URL example_net 0 (Parsed example_registry) None False)) ! 1)
        ''downloadCount'' = Some (JNum 5)
   \<and> map_of (plugins_on_disk (file_after (Parsed example_registry)
        (updateDownloadCounts example_URL example_net 0 (Parsed example_registry) None False)) ! 0)
        ''downloadCount'' = Some (JNum 10)"
proof -
  have u: "unique_ids (plugins_or_empty example_registry)" by code_simp
  have k: "1 < length (plugins_or_empty example_registry)" by code_simp
  have e: "has_error (fetch_results example_URL example_net None (plugins_or_empty example_registry) ! 1)"
    by code_simp
  have before: "map_of (plugins_or_empty example_registry ! 1) ''downloadCount'' = Some (JNum 5)"
    by code_simp
  have j: "0 < length (plugins_or_empty example_registry)" by code_simp
  have ok0: "error (fetch_results example_URL example_net None (plugins_or_empty example_registry) ! 0) = None"
    "count (fetch_results example_URL example_net None (plugins_or_empty example_registry) ! 0) = Some 10"
    by code_simp+
  from reconcile_keeps_count_on_failure[OF u k e, of 0 False] before j ok0 e
  show ?thesis by blast
qed

theorem reconcile_writes_only_changes_witness:
  "unique_ids (plugins_or_empty example_registry)
   \<and> saved (updateDownloadCounts example_URL example_net 0 (Parsed example_registry) None False) \<noteq> None
   \<and> saved (updateDownloadCounts example_URL example_net 60000
        (file_after (Parsed example_registry)
           (updateDownloadCounts example_URL example_net 0 (Parsed example_registry) None False))
        None False) = None"
proof -
  have u: "unique_ids (plugins_or_empty example_registry)" by code_simp
  have w: "saved (updateDownloadCounts example_URL example_net 0 (Parsed example_registry) None False) \<noteq> None"
    by code_simp
  from reconcile_writes_only_changes[OF u, of example_URL example_net 0 None 60000] u w
  show ?thesis by blast
qed

text \<open>
  As claim C5 states it, the property fails with \<open>updatePluginTime\<close>: a run on
  \<open>fresh_registry\<close> leaves \<open>stamped_registry\<close>, and a second run half a second later,
  against the same network, writes \<open>stamped_registry\<close> again although no member of it
  changes.
\<close>

theorem stamped_rerun_writes_again:
  "file_after (Parsed fresh_registry)
       (updateDownloadCounts example_URL example_net 0 (Parsed fresh_registry) None True)
     = Parsed stamped_registry
   \<and> saved (updateDownloadCounts example_URL example_net 500 (Parsed stamped_registry) None True)
     = Some stamped_registry"
  by code_simp

subsection \<open>Batches\<close>

text \<open>
  Run alone against a network, the suspendable functions compute what \<open>fetchWithRetry\<close>
  and \<open>getDownloadCountForPlugin\<close> compute.
\<close>

lemma attempt_received: "attempt net req tr = received (net tr req)"
  by (simp add: attempt_def received_def)

lemma settle_fetchWithRetry:
  "settle net (fetchWithRetry_async req r) tr = fetchWithRetry net req r tr"
proof (induction r arbitrary: tr)
  case 0
  show ?case
    by (subst fetchWithRetry.simps)
       (simp add: attempt_received split: sum.splits)
next
  case (Suc r)
  show ?case
    by (subst fetchWithRetry.simps)
       (simp add: attempt_received Suc.IH split: sum.splits)
qed

lemma settle_await_then:
  "settle net (await_then p g) tr = (case settle net p tr of (a, tr') \<Rightarrow> settle net (g a) tr')"
  by (induction p arbitrary: tr) simp_all

lemma settle_getDownloadCountForPlugin:
  "settle net (getDownloadCountForPlugin_async URL token p) tr
     = getDownloadCountForPlugin URL net token p tr"
  by (simp add: getDownloadCountForPlugin_async_def getDownloadCountForPlugin_def
        fetchGitHubReleases_async_def fetchGitHubReleases_def settle_await_then
        settle_fetchWithRetry
      split: option.splits prod.splits sum.splits)

text \<open>
  The loop's invariant. A batch starts only once the one before has settled, so every
  task before the loop variable has finished, and the requests that are out belong to the
  current batch.
\<close>

lemma returned_issued: "returned p \<Longrightarrow> issued p = []"
  by (cases p) (simp_all add: returned_def issued_def)

lemma in_flight_split:
  "in_flight s = length (filter (\<lambda>p. issued p \<noteq> []) (take (position s) (pool s)))
               + length (filter (\<lambda>p. issued p \<noteq> []) (drop (position s) (pool s)))"
proof -
  have "pool s = take (position s) (pool s) @ drop (position s) (pool s)" by simp
  then have "filter (\<lambda>p. issued p \<noteq> []) (pool s)
      = filter (\<lambda>p. issued p \<noteq> []) (take (position s) (pool s))
        @ filter (\<lambda>p. issued p \<noteq> []) (drop (position s) (pool s))"
    by (metis filter_append)
  then show ?thesis by (simp add: in_flight_def)
qed

lemma no_request_out:
  "list_all returned ps \<Longrightarrow> filter (\<lambda>p. issued p \<noteq> []) ps = []"
  by (induction ps) (simp_all add: returned_issued)

lemma length_slice_eq: "length (slice ps i j) = min j (length ps) - i"
  by (simp add: slice_def)

lemma invariant_enter:
  assumes "i mod CONCURRENCY = 0" "length (pool s) = min i (length ps)"
    and "list_all returned (pool s)"
    and "pushed s = concat (map returned_value (pool s))"
  shows "loop_invariant ps (enter URL token ps i s)"
proof (cases "i < length ps")
  case True
  then have len: "length (pool s) = i" using assms(2) by simp
  have "length (pool s @ map (getDownloadCountForPlugin_async URL token) (slice ps i (i + CONCURRENCY)))
          = min (i + CONCURRENCY) (length ps)"
    using True len by (simp add: length_slice_eq)
  then show ?thesis
    using True assms len by (simp add: loop_invariant_def enter_def Let_def)
next
  case False
  then show ?thesis
    using assms by (simp add: loop_invariant_def enter_def)
qed

lemma invariant_resume:
  assumes inv: "loop_invariant ps s"
    and j: "j < length (pool s)" and out: "\<not> returned (pool s ! j)"
  shows "loop_invariant ps (s\<lparr>pool := (pool s)[j := q], sent := xs\<rparr>)"
proof -
  from inv have ret: "list_all returned (take (position s) (pool s))"
    by (simp add: loop_invariant_def)
  have "\<not> j < position s"
  proof
    assume "j < position s"
    then have "take (position s) (pool s) ! j = pool s ! j" by simp
    moreover have "j < length (take (position s) (pool s))" using j \<open>j < position s\<close> by simp
    ultimately have "returned (pool s ! j)" using ret by (metis list_all_length)
    with out show False by simp
  qed
  then have "take (position s) ((pool s)[j := q]) = take (position s) (pool s)" by simp
  then show ?thesis using inv by (simp add: loop_invariant_def)
qed

lemma loop_reaches_invariant:
  assumes "loop_reaches URL token ps s"
  shows "loop_invariant ps s"
  using assms
proof (induction rule: loop_reaches.induct)
  case loop_entry
  show ?case by (rule invariant_enter) simp_all
next
  case (response s j req k f)
  show ?case
    by (rule invariant_resume[OF response.IH response.hyps(2)])
       (simp add: response.hyps(3) returned_def)
next
  case (timer s j ms p)
  show ?case
    by (rule invariant_resume[OF timer.IH timer.hyps(2)])
       (simp add: timer.hyps(3) returned_def)
next
  case (batch_settled s)
  let ?s1 = "s\<lparr>pushed := pushed s @ concat (map returned_value (drop (position s) (pool s)))\<rparr>"
  from batch_settled.IH batch_settled.hyps(2)
  have inv: "position s mod CONCURRENCY = 0" "position s < length ps"
    "length (pool s) = min (position s + CONCURRENCY) (length ps)"
    "list_all returned (take (position s) (pool s))"
    "pushed s = concat (map returned_value (take (position s) (pool s)))"
    by (simp_all add: loop_invariant_def)
  have whole: "pool s = take (position s) (pool s) @ drop (position s) (pool s)" by simp
  have all: "list_all returned (pool s)"
    using inv(4) batch_settled.hyps(3) by (subst whole) (simp only: list_all_append)
  have pushed: "pushed ?s1 = concat (map returned_value (pool s))"
    using inv(5) by (subst (2) whole) (simp only: map_append concat_append, simp)
  show ?case
  proof (rule invariant_enter)
    show "(position s + CONCURRENCY) mod CONCURRENCY = 0" using inv(1) by simp
    show "length (pool ?s1) = min (position s + CONCURRENCY) (length ps)" using inv(3) by simp
    show "list_all returned (pool ?s1)" using all by simp
    show "pushed ?s1 = concat (map returned_value (pool ?s1))" using pushed by simp
  qed
qed

lemma in_flight_bound:
  assumes "loop_reaches URL token ps s"
  shows "in_flight s \<le> CONCURRENCY"
proof -
  from loop_reaches_invariant[OF assms]
  have ret: "list_all returned (take (position s) (pool s))"
    and len: "length (pool s) \<le> position s + CONCURRENCY"
    by (auto simp: loop_invariant_def split: if_splits)
  have "in_flight s = length (filter (\<lambda>p. issued p \<noteq> []) (drop (position s) (pool s)))"
    by (simp add: in_flight_split no_request_out[OF ret])
  also have "\<dots> \<le> length (drop (position s) (pool s))" by (rule length_filter_le)
  also have "\<dots> \<le> CONCURRENCY" using len by simp
  finally show ?thesis .
qed

text \<open>
  Every task in the pool is the task of the plugin at its index, somewhere on its way, and
  the requests sent under that index are the ones it has sent.
\<close>

lemma filter_tagged:
  assumes "distinct ks"
  shows "map snd (filter (\<lambda>e. fst e = j) (concat (map (\<lambda>k. map (Pair k) (h k)) ks)))
           = (if j \<in> set ks then h j else [])"
  using assms
proof (induction ks)
  case Nil
  then show ?case by simp
next
  case (Cons k ks)
  have one: "map snd (filter (\<lambda>e. fst e = j) (map (Pair k) (h k))) = (if k = j then h k else [])"
    by (induction "h k") (auto simp: comp_def filter_empty_conv)
  show ?case using Cons by (auto simp: one)
qed

lemma requests_of_enter:
  assumes "length (pool s) = min i (length ps)"
  shows "requests_of j (enter URL token ps i s)
           = requests_of j s
             @ (if length (pool s) \<le> j \<and> j < length (pool (enter URL token ps i s))
                then issued (getDownloadCountForPlugin_async URL token (j, ps ! j)) else [])"
proof (cases "i < length ps")
  case False
  then show ?thesis using assms by (auto simp: enter_def requests_of_def)
next
  case True
  let ?m = "min (i + CONCURRENCY) (length ps)"
  have "map (\<lambda>p. map (Pair (fst p)) (issued (getDownloadCountForPlugin_async URL token p)))
            (slice ps i (i + CONCURRENCY))
        = map (\<lambda>k. map (Pair k) (issued (getDownloadCountForPlugin_async URL token (k, ps ! k))))
            [i..<?m]"
    by (simp add: slice_def comp_def)
  moreover have "length (pool (enter URL token ps i s)) = ?m"
    using True assms by (simp add: enter_def Let_def length_slice_eq)
  moreover have "length (pool s) = i" using True assms by simp
  ultimately show ?thesis
    using True
      filter_tagged[of "[i..<?m]" j
        "\<lambda>k. issued (getDownloadCountForPlugin_async URL token (k, ps ! k))"]
    by (simp add: enter_def Let_def requests_of_def)
qed

lemma requests_of_resume:
  "requests_of j (s\<lparr>pool := ps', sent := sent s @ map (Pair j0) rs\<rparr>)
     = requests_of j s @ (if j = j0 then rs else [])"
  by (induction rs) (auto simp: requests_of_def comp_def filter_empty_conv)

lemma requests_of_pushed [simp]:
  "requests_of j (s\<lparr>pushed := xs\<rparr>) = requests_of j s"
  by (simp add: requests_of_def)

lemma tasks_invariant_enter:
  assumes inv: "tasks_invariant URL token ps s" and len: "length (pool s) = min i (length ps)"
  shows "tasks_invariant URL token ps (enter URL token ps i s)"
proof -
  let ?s' = "enter URL token ps i s"
  let ?prog = "\<lambda>j. getDownloadCountForPlugin_async URL token (j, ps ! j)"
  note req = requests_of_enter[OF len, of _ URL token]
  have le: "length (pool s) \<le> length (pool ?s')" by (simp add: enter_def Let_def)
  have old: "pool ?s' ! j = pool s ! j" if "j < length (pool s)" for j
    using that by (simp add: enter_def Let_def nth_append)
  have new: "pool ?s' ! j = ?prog j" if "length (pool s) \<le> j" "j < length (pool ?s')" for j
  proof (cases "i < length ps")
    case False
    with that show ?thesis by (simp add: enter_def)
  next
    case True
    then have i: "length (pool s) = i" using len by simp
    from that True i have "j - i < length (slice ps i (i + CONCURRENCY))"
      by (simp add: enter_def Let_def)
    moreover have "[i..<min (i + CONCURRENCY) (length ps)] ! (j - i) = j"
    proof -
      have "i \<le> j" using that(1) i by simp
      moreover have "j - i < min (i + CONCURRENCY) (length ps) - i"
        using \<open>j - i < length (slice ps i (i + CONCURRENCY))\<close> by (simp add: length_slice_eq)
      ultimately have "i + (j - i) < min (i + CONCURRENCY) (length ps)" by linarith
      then have "[i..<min (i + CONCURRENCY) (length ps)] ! (j - i) = i + (j - i)" by (rule nth_upt)
      then show ?thesis using \<open>i \<le> j\<close> by simp
    qed
    ultimately have "map (getDownloadCountForPlugin_async URL token) (slice ps i (i + CONCURRENCY)) ! (j - i)
                 = ?prog j"
      by (simp add: slice_def)
    then show ?thesis using that True i by (simp add: enter_def Let_def nth_append)
  qed
  have "\<exists>fs. trail (?prog j) fs (requests_of j ?s') (pool ?s' ! j)" if j: "j < length (pool ?s')" for j
  proof (cases "j < length (pool s)")
    case True
    with inv obtain fs where "trail (?prog j) fs (requests_of j s) (pool s ! j)"
      by (auto simp: tasks_invariant_def)
    then show ?thesis using True by (auto simp: req old)
  next
    case False
    then have "requests_of j s = []" using inv by (simp add: tasks_invariant_def)
    then have "requests_of j ?s' = issued (?prog j)" using False j by (simp add: req)
    moreover have "pool ?s' ! j = ?prog j" using False j by (simp add: new)
    ultimately show ?thesis using trail.called[of "?prog j"] by auto
  qed
  moreover have "requests_of j ?s' = []" if "length (pool ?s') \<le> j" for j
    using that inv le by (simp add: req tasks_invariant_def)
  ultimately show ?thesis by (simp add: tasks_invariant_def)
qed

lemma tasks_invariant_resume:
  assumes inv: "tasks_invariant URL token ps s" and j0: "j0 < length (pool s)"
    and step: "\<And>fs reqs. trail (getDownloadCountForPlugin_async URL token (j0, ps ! j0)) fs reqs (pool s ! j0)
                 \<Longrightarrow> \<exists>fs'. trail (getDownloadCountForPlugin_async URL token (j0, ps ! j0)) fs'
                              (reqs @ issued q) q"
  shows "tasks_invariant URL token ps (s\<lparr>pool := (pool s)[j0 := q], sent := sent s @ map (Pair j0) (issued q)\<rparr>)"
proof -
  let ?s' = "s\<lparr>pool := (pool s)[j0 := q], sent := sent s @ map (Pair j0) (issued q)\<rparr>"
  let ?prog = "\<lambda>j. getDownloadCountForPlugin_async URL token (j, ps ! j)"
  have "\<exists>fs. trail (?prog j) fs (requests_of j ?s') (pool ?s' ! j)" if j: "j < length (pool ?s')" for j
  proof -
    from inv j obtain fs where t: "trail (?prog j) fs (requests_of j s) (pool s ! j)"
      by (auto simp: tasks_invariant_def)
    show ?thesis
    proof (cases "j = j0")
      case True
      from step[OF t[unfolded True]] obtain fs' where
        "trail (?prog j0) fs' (requests_of j0 s @ issued q) q" by blast
      then show ?thesis using True j0 by (auto simp: requests_of_resume)
    next
      case False
      then show ?thesis using t by (auto simp: requests_of_resume)
    qed
  qed
  moreover have "requests_of j ?s' = []" if "length (pool ?s') \<le> j" for j
    using that inv j0 by (simp add: requests_of_resume tasks_invariant_def)
  ultimately show ?thesis by (simp add: tasks_invariant_def)
qed

lemma loop_reaches_tasks:
  assumes "loop_reaches URL token ps s"
  shows "tasks_invariant URL token ps s"
  using assms
proof (induction rule: loop_reaches.induct)
  case loop_entry
  show ?case by (rule tasks_invariant_enter) (simp_all add: tasks_invariant_def requests_of_def)
next
  case (response s j req k f)
  show ?case
  proof (rule tasks_invariant_resume[OF response.IH response.hyps(2)])
    fix fs reqs
    assume "trail (getDownloadCountForPlugin_async URL token (j, ps ! j)) fs reqs (pool s ! j)"
    then have "trail (getDownloadCountForPlugin_async URL token (j, ps ! j)) fs reqs (Fetch req k)"
      by (simp add: response.hyps(3))
    from trail.answered[OF this, of f]
    show "\<exists>fs'. trail (getDownloadCountForPlugin_async URL token (j, ps ! j)) fs' (reqs @ issued (k f)) (k f)"
      by blast
  qed
next
  case (timer s j ms p)
  show ?case
  proof (rule tasks_invariant_resume[OF timer.IH timer.hyps(2)])
    fix fs reqs
    assume "trail (getDownloadCountForPlugin_async URL token (j, ps ! j)) fs reqs (pool s ! j)"
    then have "trail (getDownloadCountForPlugin_async URL token (j, ps ! j)) fs reqs (Sleep ms p)"
      by (simp add: timer.hyps(3))
    from trail.woken[OF this]
    show "\<exists>fs'. trail (getDownloadCountForPlugin_async URL token (j, ps ! j)) fs' (reqs @ issued p) p"
      by blast
  qed
next
  case (batch_settled s)
  let ?s1 = "s\<lparr>pushed := pushed s @ concat (map returned_value (drop (position s) (pool s)))\<rparr>"
  from loop_reaches_invariant[OF batch_settled.hyps(1)] batch_settled.hyps(2)
  have len: "length (pool ?s1) = min (position s + CONCURRENCY) (length ps)"
    by (simp add: loop_invariant_def)
  have "tasks_invariant URL token ps ?s1"
    using batch_settled.IH by (simp add: tasks_invariant_def)
  from tasks_invariant_enter[OF this len] show ?case .
qed

text \<open>
  The requests of one task: none when the URL does not resolve, otherwise between one and
  \<open>RETRY_TIMES + 1\<close>, all for the releases of the plugin's repository.
\<close>

lemma chain_unfold:
  "await_then (fetchWithRetry_async req r) g =
     Fetch req (\<lambda>f.
       case received f of
         Inr (Inr releases) \<Rightarrow> g (Inr releases)
       | Inr (Inl msg) \<Rightarrow> g (Inl (Platform msg))
       | Inl err \<Rightarrow>
           (case r of
              0 \<Rightarrow> g (Inl err)
            | Suc r' \<Rightarrow> Sleep RETRY_DELAY (await_then (fetchWithRetry_async req r') g)))"
  by (cases r) (auto split: sum.splits)

lemma issued_chain [simp]: "issued (await_then (fetchWithRetry_async req r) g) = [req]"
  by (subst chain_unfold) (simp add: issued_def)

lemma trail_chain:
  assumes "trail (await_then (fetchWithRetry_async req R) g) fs reqs q"
    and g: "\<And>x. returned (g x)"
  shows "((\<exists>r\<le>R. q = await_then (fetchWithRetry_async req r) g \<and> length reqs = Suc (R - r))
        \<or> (\<exists>r<R. q = Sleep RETRY_DELAY (await_then (fetchWithRetry_async req r) g)
                 \<and> length reqs = R - r)
        \<or> (\<exists>x. q = g x \<and> 1 \<le> length reqs \<and> length reqs \<le> Suc R))
       \<and> set reqs \<subseteq> {req}"
  using assms(1)
proof (induction rule: trail.induct)
  case called
  show ?case by auto
next
  case (answered fs reqs req' k f)
  have nofetch: "g x \<noteq> Fetch req' k" for x
    using g[of x] by (auto simp: returned_def)
  from answered.IH have sub: "set reqs \<subseteq> {req}" by simp
  from answered.IH consider
      (a) r where "r \<le> R" "Fetch req' k = await_then (fetchWithRetry_async req r) g"
        "length reqs = Suc (R - r)"
    | (b) r where "Fetch req' k = Sleep RETRY_DELAY (await_then (fetchWithRetry_async req r) g)"
    | (c) x where "Fetch req' k = g x"
    by blast
  then obtain r where r: "r \<le> R"
    "Fetch req' k = await_then (fetchWithRetry_async req r) g" "length reqs = Suc (R - r)"
  proof cases
    case a then show ?thesis using that by blast
  next
    case b then show ?thesis by simp
  next
    case c then show ?thesis using nofetch[of x] by simp
  qed
  from r(2) have k: "k = (\<lambda>f.
       case received f of
         Inr (Inr releases) \<Rightarrow> g (Inr releases)
       | Inr (Inl msg) \<Rightarrow> g (Inl (Platform msg))
       | Inl err \<Rightarrow>
           (case r of
              0 \<Rightarrow> g (Inl err)
            | Suc r' \<Rightarrow> Sleep RETRY_DELAY (await_then (fetchWithRetry_async req r') g)))"
    by (subst (asm) chain_unfold) simp
  have gi: "issued (g x) = []" for x by (rule returned_issued[OF g])
  consider (finished) x where "k f = g x"
    | (retry) r' where "r = Suc r'" "k f = Sleep RETRY_DELAY (await_then (fetchWithRetry_async req r') g)"
  proof -
    have "(\<exists>x. k f = g x)
        \<or> (\<exists>r'. r = Suc r' \<and> k f = Sleep RETRY_DELAY (await_then (fetchWithRetry_async req r') g))"
      unfolding k by (cases "received f"; cases r) (auto split: sum.splits)
    then show ?thesis using that by blast
  qed
  then show ?case
  proof cases
    case (finished x)
    then show ?thesis using r(1,3) sub by (auto simp: gi)
  next
    case (retry r')
    then have "r' < R" "length (reqs @ issued (k f)) = R - r'"
      using r(1,3) by (auto simp: issued_def)
    then show ?thesis using retry sub by (auto simp: issued_def)
  qed
next
  case (woken fs reqs ms p)
  have nosleep: "g x \<noteq> Sleep ms p" for x
    using g[of x] by (auto simp: returned_def)
  have nochain: "await_then (fetchWithRetry_async req r) g \<noteq> Sleep ms p" for r
    by (subst chain_unfold) simp
  from woken.IH have sub: "set reqs \<subseteq> {req}" by simp
  from woken.IH consider
      (a) r where "Sleep ms p = await_then (fetchWithRetry_async req r) g"
    | (b) r where "r < R" "Sleep ms p = Sleep RETRY_DELAY (await_then (fetchWithRetry_async req r) g)"
        "length reqs = R - r"
    | (c) x where "Sleep ms p = g x"
    by blast
  then obtain r where r: "r < R"
    "p = await_then (fetchWithRetry_async req r) g" "length reqs = R - r"
  proof cases
    case a then show ?thesis using nochain[of r] by simp
  next
    case b then show ?thesis using that by simp
  next
    case c then show ?thesis using nosleep[of x] by simp
  qed
  have "length (reqs @ issued p) = Suc (R - r)" "r \<le> R" "set (reqs @ issued p) \<subseteq> {req}"
    using r sub by auto
  then show ?case using r(2) by blast
qed

lemma trail_Return:
  assumes "trail (Return v) fs reqs q"
  shows "q = Return v \<and> reqs = [] \<and> fs = []"
  using assms by (induction rule: trail.induct) (auto simp: issued_def)

lemma task_requests:
  assumes "trail (getDownloadCountForPlugin_async URL token (k, p)) fs reqs q"
  shows "(extractGitHubRepo URL (map_of p ''downloadUrl'') = None \<longrightarrow> reqs = [] \<and> returned q)
       \<and> (\<forall>info. extractGitHubRepo URL (map_of p ''downloadUrl'') = Some info \<longrightarrow>
             set reqs = {releases_request (owner info) (repo info) token}
             \<and> length reqs \<le> RETRY_TIMES + 1)
       \<and> (\<forall>v. q = Return v \<longrightarrow> plugin v = k)"
proof (cases "extractGitHubRepo URL (map_of p ''downloadUrl'')")
  case None
  with assms have "trail (Return \<lparr>plugin = k, count = None, error = Some NoRepoInfo\<rparr>) fs reqs q"
    by (simp add: getDownloadCountForPlugin_async_def)
  from trail_Return[OF this] None show ?thesis by (auto simp: returned_def)
next
  case (Some info)
  let ?req = "releases_request (owner info) (repo info) token"
  let ?g = "\<lambda>r. case r of
              Inr releases \<Rightarrow> Return \<lparr>plugin = k, count = Some (totalCount releases), error = None\<rparr>
            | Inl err \<Rightarrow> Return \<lparr>plugin = k, count = None, error = Some err\<rparr>"
  have g: "returned (?g x)" for x by (cases x) (simp_all add: returned_def)
  have gv: "?g x = Return v \<Longrightarrow> plugin v = k" for x v by (cases x) auto
  from assms Some have t: "trail (await_then (fetchWithRetry_async ?req RETRY_TIMES) ?g) fs reqs q"
    by (simp add: getDownloadCountForPlugin_async_def fetchGitHubReleases_async_def)
  note facts = trail_chain[OF t g]
  have nonempty: "reqs \<noteq> []" using facts by auto
  have "set reqs = {?req}" using facts nonempty by (cases reqs) auto
  moreover have "length reqs \<le> RETRY_TIMES + 1" using facts by auto
  moreover have "plugin v = k" if "q = Return v" for v
  proof -
    have nochain: "await_then (fetchWithRetry_async ?req r) ?g \<noteq> Return v" for r
      by (subst chain_unfold) simp
    from facts consider
        (a) r where "q = await_then (fetchWithRetry_async ?req r) ?g"
      | (b) r where "q = Sleep RETRY_DELAY (await_then (fetchWithRetry_async ?req r) ?g)"
      | (c) x where "q = ?g x"
      by blast
    then show ?thesis
    proof cases
      case a then show ?thesis using nochain[of r] that by simp
    next
      case b then show ?thesis using that by simp
    next
      case c then show ?thesis using gv[of x v] that by simp
    qed
  qed
  ultimately show ?thesis using Some by auto
qed

lemma returned_values_nth:
  assumes "list_all returned xs"
  shows "length (concat (map returned_value xs)) = length xs
       \<and> (\<forall>j<length xs. xs ! j = Return (concat (map returned_value xs) ! j))"
  using assms
proof (induction xs)
  case Nil
  then show ?case by simp
next
  case (Cons x xs)
  from Cons.prems obtain v where v: "x = Return v" by (cases x) (auto simp: returned_def)
  from Cons have ih: "length (concat (map returned_value xs)) = length xs"
    "\<forall>j<length xs. xs ! j = Return (concat (map returned_value xs) ! j)" by auto
  have rv: "returned_value (Return v) = [v]" by (simp add: returned_value_def)
  have "(x # xs) ! j = Return (concat (map returned_value (x # xs)) ! j)" if "j < length (x # xs)" for j
    using that ih(2) v by (cases j) (simp_all add: rv)
  then show ?case using ih(1) v by (simp add: rv)
qed

lemma loop_exit_results:
  assumes "loop_reaches URL token ps s" "\<not> awaiting s"
  shows "length (pushed s) = length ps
       \<and> (\<forall>j<length ps. pool s ! j = Return (pushed s ! j))
       \<and> map plugin (pushed s) = [0..<length ps]"
proof -
  from loop_reaches_invariant[OF assms(1)] assms(2)
  have len: "length (pool s) = length ps" and all: "list_all returned (pool s)"
    and pushed: "pushed s = concat (map returned_value (pool s))"
    by (auto simp: loop_invariant_def)
  note vals = returned_values_nth[OF all, folded pushed]
  have at: "pool s ! j = Return (pushed s ! j)" if "j < length ps" for j
    using vals that len by simp
  have "plugin (pushed s ! j) = j" if j: "j < length ps" for j
  proof -
    from loop_reaches_tasks[OF assms(1)] j len obtain fs where
      "trail (getDownloadCountForPlugin_async URL token (j, ps ! j)) fs (requests_of j s) (pool s ! j)"
      by (auto simp: tasks_invariant_def)
    from task_requests[OF this] at[OF j] show ?thesis by simp
  qed
  then have "map plugin (pushed s) = [0..<length ps]"
    using vals len by (intro nth_equalityI) simp_all
  then show ?thesis using vals len at by simp
qed

text \<open>
  The results the loop ends with are results of \<open>fetch_loop\<close>: a network that gives the
  answers of the first task, then those of the second, and so on, makes the batches run
  one task after another compute them.
\<close>

lemma answers_from_append:
  "answers_from net c (fs @ gs) \<Longrightarrow> answers_from net c fs \<and> answers_from net (c + length fs) gs"
  unfolding answers_from_def
proof (intro conjI allI impI)
  fix i tr req
  assume a: "\<forall>i<length (fs @ gs). \<forall>tr req. attempts tr = c + i \<longrightarrow> net tr req = (fs @ gs) ! i"
  { assume "i < length fs" "attempts tr = c + i"
    with a have "net tr req = (fs @ gs) ! i" by simp
    then show "net tr req = fs ! i" using \<open>i < length fs\<close> by (simp add: nth_append) }
  { assume i: "i < length gs" "attempts tr = c + length fs + i"
    then have "length fs + i < length (fs @ gs)" "attempts tr = c + (length fs + i)" by simp_all
    with a have "net tr req = (fs @ gs) ! (length fs + i)" by blast
    then show "net tr req = gs ! i" by simp }
qed

lemma attempts_append [simp]: "attempts (tr @ tr') = attempts tr + attempts tr'"
  by (simp add: attempts_def)

lemma attempts_Request [simp]: "attempts [Request req] = 1"
  by (simp add: attempts_def)

lemma attempts_Delay [simp]: "attempts [Delay ms] = 0"
  by (simp add: attempts_def)

lemma trail_settle:
  assumes "trail p0 fs reqs p" "answers_from net c fs" "attempts tr = c"
  shows "\<exists>tr'. settle net p0 tr = settle net p tr' \<and> attempts tr' = c + length fs"
  using assms
proof (induction rule: trail.induct)
  case called
  then show ?case by auto
next
  case (answered fs reqs req k f)
  from answers_from_append[OF answered.prems(1)] have "answers_from net c fs" by simp
  from answered.IH[OF this answered.prems(2)] obtain tr' where
    tr': "settle net p0 tr = settle net (Fetch req k) tr'" "attempts tr' = c + length fs"
    by blast
  have "net tr' req = (fs @ [f]) ! length fs"
    using answered.prems(1)[unfolded answers_from_def, rule_format, of "length fs" tr' req] tr'(2)
    by simp
  then have "net tr' req = f" by simp
  then have "settle net (Fetch req k) tr' = settle net (k f) (tr' @ [Request req])" by simp
  moreover have "attempts (tr' @ [Request req]) = c + length (fs @ [f])" using tr'(2) by simp
  ultimately show ?case using tr'(1) by (intro exI[of _ "tr' @ [Request req]"]) simp
next
  case (woken fs reqs ms p)
  from woken.IH[OF woken.prems] obtain tr' where
    tr': "settle net p0 tr = settle net (Sleep ms p) tr'" "attempts tr' = c + length fs"
    by blast
  have "settle net (Sleep ms p) tr' = settle net p (tr' @ [Delay ms])" by simp
  moreover have "attempts (tr' @ [Delay ms]) = c + length fs" using tr'(2) by simp
  ultimately show ?case using tr'(1) by (intro exI[of _ "tr' @ [Delay ms]"]) simp
qed

lemma Promise_all_settle:
  assumes "list_all2 (\<lambda>p fv. \<exists>reqs. trail p (fst fv) reqs (Return (snd fv))) progs fvs"
    and "answers_from net c (concat (map fst fvs))" "attempts tr = c"
  shows "fst (Promise_all (map (settle net) progs) tr) = map snd fvs"
  using assms
proof (induction arbitrary: c tr rule: list_all2_induct)
  case Nil
  then show ?case by simp
next
  case (Cons p progs fv fvs)
  from Cons.prems(1) have a: "answers_from net c (fst fv)"
    "answers_from net (c + length (fst fv)) (concat (map fst fvs))"
    using answers_from_append[of net c "fst fv" "concat (map fst fvs)"] by simp_all
  from Cons.hyps(1) obtain reqs where "trail p (fst fv) reqs (Return (snd fv))" by blast
  from trail_settle[OF this a(1) Cons.prems(2)] obtain tr' where
    tr': "settle net p tr = (snd fv, tr')" "attempts tr' = c + length (fst fv)"
    by auto
  from Cons.IH[OF a(2) tr'(2)]
  have "fst (Promise_all (map (settle net) progs) tr') = map snd fvs" .
  then show ?case using tr'(1) by (auto split: prod.splits)
qed

lemma getDownloadCountForPlugin_settle:
  "getDownloadCountForPlugin URL net token = (\<lambda>p. settle net (getDownloadCountForPlugin_async URL token p))"
  by (intro ext) (simp add: settle_getDownloadCountForPlugin)

lemma fetch_results_settle:
  "fetch_results URL net token ps
     = fst (Promise_all (map (settle net)
              (map (getDownloadCountForPlugin_async URL token) (slice ps 0 (length ps)))) [])"
  by (simp add: fetch_results_def fetch_loop_flat getDownloadCountForPlugin_settle comp_def
      split: prod.splits)

theorem loop_results_are_fetch_results:
  assumes "loop_reaches URL token ps s" "\<not> awaiting s"
  shows "\<exists>net. pushed s = fetch_results URL net token ps"
proof -
  let ?prog = "\<lambda>j. getDownloadCountForPlugin_async URL token (j, ps ! j)"
  note exit = loop_exit_results[OF assms]
  from loop_reaches_invariant[OF assms(1)] assms(2)
  have len: "length (pool s) = length ps" by (simp add: loop_invariant_def)
  have "\<forall>j\<in>{..<length ps}. \<exists>fs. \<exists>reqs. trail (?prog j) fs reqs (Return (pushed s ! j))"
  proof
    fix j assume "j \<in> {..<length ps}"
    then have j: "j < length ps" by simp
    with loop_reaches_tasks[OF assms(1)] len obtain fs where
      "trail (?prog j) fs (requests_of j s) (pool s ! j)"
      by (auto simp: tasks_invariant_def)
    then show "\<exists>fs. \<exists>reqs. trail (?prog j) fs reqs (Return (pushed s ! j))"
      using exit j by auto
  qed
  from bchoice[OF this] obtain F where
    F: "\<forall>j\<in>{..<length ps}. \<exists>reqs. trail (?prog j) (F j) reqs (Return (pushed s ! j))"
    by blast
  let ?fvs = "map (\<lambda>j. (F j, pushed s ! j)) [0..<length ps]"
  let ?all = "concat (map fst ?fvs)"
  let ?net = "\<lambda>tr req. if attempts tr < length ?all then ?all ! attempts tr else Rejected []"
  have progs: "map (getDownloadCountForPlugin_async URL token) (slice ps 0 (length ps))
                 = map ?prog [0..<length ps]"
    by (simp add: slice_def)
  have rel: "list_all2 (\<lambda>p fv. \<exists>reqs. trail p (fst fv) reqs (Return (snd fv)))
               (map ?prog [0..<length ps]) ?fvs"
    using F by (simp add: list_all2_map1 list_all2_map2 list_all2_same)
  have ans: "answers_from ?net 0 ?all" by (simp add: answers_from_def)
  have "fst (Promise_all (map (settle ?net) (map ?prog [0..<length ps])) []) = map snd ?fvs"
    by (rule Promise_all_settle[OF rel ans]) (simp add: attempts_def)
  also have "map snd ?fvs = pushed s"
    using exit by (intro nth_equalityI) simp_all
  finally have "fetch_results URL ?net token ps = pushed s"
    by (simp only: fetch_results_settle progs)
  then show ?thesis by (intro exI[of _ ?net]) simp
qed

text \<open>
  Conversely, the results of \<open>fetch_loop\<close> for a network are results the loop can end
  with: the tasks of each batch may run to their end one after another.
\<close>

lemma run_task:
  assumes "loop_reaches URL token ps s" "j < length (pool s)" "pool s ! j = p"
    and "settle net p tr = (v, tr')"
  shows "\<exists>s'. loop_reaches URL token ps s' \<and> pool s' = (pool s)[j := Return v]
            \<and> position s' = position s \<and> awaiting s' = awaiting s \<and> pushed s' = pushed s"
  using assms
proof (induction p arbitrary: s tr)
  case (Return a)
  then have "(pool s)[j := Return v] = pool s" by (simp add: list_update_same_conv)
  with Return.prems(1) show ?case by metis
next
  case (Fetch req k)
  let ?f = "net tr req"
  let ?s1 = "s\<lparr>pool := (pool s)[j := k ?f], sent := sent s @ map (Pair j) (issued (k ?f))\<rparr>"
  have r1: "loop_reaches URL token ps ?s1"
    by (rule loop_reaches.response[OF Fetch.prems(1,2,3)])
  have j1: "j < length (pool ?s1)" using Fetch.prems(2) by simp
  have p1: "pool ?s1 ! j = k ?f" using Fetch.prems(2) by simp
  have e1: "settle net (k ?f) (tr @ [Request req]) = (v, tr')" using Fetch.prems(4) by simp
  have "k ?f \<in> range k" by simp
  from Fetch.IH[OF this r1 j1 p1 e1] show ?case by simp
next
  case (Sleep ms p)
  let ?s1 = "s\<lparr>pool := (pool s)[j := p], sent := sent s @ map (Pair j) (issued p)\<rparr>"
  have r1: "loop_reaches URL token ps ?s1"
    by (rule loop_reaches.timer[OF Sleep.prems(1,2,3)])
  have j1: "j < length (pool ?s1)" using Sleep.prems(2) by simp
  have p1: "pool ?s1 ! j = p" using Sleep.prems(2) by simp
  have e1: "settle net p (tr @ [Delay ms]) = (v, tr')" using Sleep.prems(4) by simp
  from Sleep.IH[OF r1 j1 p1 e1] show ?case by simp
qed

lemma run_tasks:
  assumes "loop_reaches URL token ps s" "drop a (pool s) = xs"
    and "Promise_all (map (settle net) xs) tr = (vs, tr')"
  shows "\<exists>s'. loop_reaches URL token ps s' \<and> pool s' = take a (pool s) @ map Return vs
            \<and> position s' = position s \<and> awaiting s' = awaiting s \<and> pushed s' = pushed s"
  using assms
proof (induction xs arbitrary: a s tr vs tr')
  case Nil
  then have "vs = []" "take a (pool s) = pool s" by simp_all
  with Nil.prems(1) show ?case by (intro exI[of _ s]) simp
next
  case (Cons x xs)
  from Cons.prems(2) have a: "a < length (pool s)" by (metis drop_all list.distinct(1) not_less)
  then have x: "pool s ! a = x" and rest: "drop (Suc a) (pool s) = xs"
    using Cons.prems(2) by (simp_all add: Cons_nth_drop_Suc[symmetric])
  obtain v tr1 where v: "settle net x tr = (v, tr1)" by (cases "settle net x tr") blast
  obtain vs' tr2 where vs': "Promise_all (map (settle net) xs) tr1 = (vs', tr2)"
    by (cases "Promise_all (map (settle net) xs) tr1") blast
  from Cons.prems(3) v vs' have vs: "vs = v # vs'" by simp
  from run_task[OF Cons.prems(1) a x v] obtain s1 where
    s1: "loop_reaches URL token ps s1" "pool s1 = (pool s)[a := Return v]"
      "position s1 = position s" "awaiting s1 = awaiting s" "pushed s1 = pushed s"
    by blast
  have "drop (Suc a) (pool s1) = xs" using rest by (simp add: s1(2))
  from Cons.IH[OF s1(1) this vs'] obtain s' where
    s': "loop_reaches URL token ps s'" "pool s' = take (Suc a) (pool s1) @ map Return vs'"
      "position s' = position s1" "awaiting s' = awaiting s1" "pushed s' = pushed s1"
    by blast
  have "take (Suc a) (pool s1) = take a (pool s) @ [Return v]"
    using a by (simp add: s1(2) take_Suc_conv_app_nth)
  then have "pool s' = take a (pool s) @ map Return vs" by (simp add: s'(2) vs)
  with s' s1 show ?case by (intro exI[of _ s']) simp
qed

lemma returned_values_Return [simp]: "concat (map returned_value (map Return vs)) = vs"
  by (induction vs) (simp_all add: returned_value_def)

lemma list_all_returned_Return [simp]: "list_all returned (map Return vs)"
  by (induction vs) (simp_all add: returned_def)

lemma run_loop:
  assumes "loop_reaches URL token ps s" "awaiting s"
    and "drop (position s) (pool s)
           = map (getDownloadCountForPlugin_async URL token)
               (slice ps (position s) (position s + CONCURRENCY))"
  shows "\<exists>s'. loop_reaches URL token ps s' \<and> \<not> awaiting s'
            \<and> pushed s' = fst (fetch_loop URL net token ps (position s) (pushed s) tr)"
  using assms
proof (induction "length ps - position s" arbitrary: s tr rule: less_induct)
  case less
  let ?i = "position s"
  let ?batch = "slice ps ?i (?i + CONCURRENCY)"
  from loop_reaches_invariant[OF less.prems(1)] less.prems(2)
  have i: "?i < length ps" and len: "length (pool s) = min (?i + CONCURRENCY) (length ps)"
    by (simp_all add: loop_invariant_def)
  obtain rs tr1 where rs: "Promise_all (map (getDownloadCountForPlugin URL net token) ?batch) tr = (rs, tr1)"
    by (cases "Promise_all (map (getDownloadCountForPlugin URL net token) ?batch) tr") blast
  then have rs': "Promise_all (map (settle net) (map (getDownloadCountForPlugin_async URL token) ?batch)) tr
                    = (rs, tr1)"
    by (simp add: getDownloadCountForPlugin_settle comp_def)
  have unfold: "fetch_loop URL net token ps ?i (pushed s) tr
                  = fetch_loop URL net token ps (?i + CONCURRENCY) (pushed s @ rs) tr1"
    using i rs by (subst fetch_loop.simps) simp
  from run_tasks[OF less.prems(1) less.prems(3) rs'] obtain s1 where
    s1: "loop_reaches URL token ps s1" "pool s1 = take ?i (pool s) @ map Return rs"
      "position s1 = ?i" "awaiting s1 = awaiting s" "pushed s1 = pushed s"
    by blast
  have li: "min (length (pool s)) ?i = ?i" using i len by simp
  have d1: "drop (position s1) (pool s1) = map Return rs" by (simp add: s1(2,3) li)
  have push: "pushed s1 @ concat (map returned_value (drop (position s1) (pool s1))) = pushed s @ rs"
    by (simp only: d1 returned_values_Return s1(5))
  define s2 where "s2 = enter URL token ps (?i + CONCURRENCY) (s1\<lparr>pushed := pushed s @ rs\<rparr>)"
  have "loop_reaches URL token ps
          (enter URL token ps (position s1 + CONCURRENCY)
             (s1\<lparr>pushed := pushed s1 @ concat (map returned_value (drop (position s1) (pool s1)))\<rparr>))"
    by (rule loop_reaches.batch_settled[OF s1(1)]) (simp_all add: s1(4) less.prems(2) d1)
  then have "loop_reaches URL token ps
          (enter URL token ps (position s1 + CONCURRENCY) (s1\<lparr>pushed := pushed s @ rs\<rparr>))"
    by (simp only: push)
  then have r2: "loop_reaches URL token ps s2"
    by (simp only: s1(3) s2_def)
  show ?case
  proof (cases "?i + CONCURRENCY < length ps")
    case False
    then have "\<not> awaiting s2" "pushed s2 = pushed s @ rs"
      by (simp_all add: enter_def s2_def)
    moreover have "fetch_loop URL net token ps (?i + CONCURRENCY) (pushed s @ rs) tr1 = (pushed s @ rs, tr1)"
      using False by (subst fetch_loop.simps) simp
    ultimately show ?thesis using r2 unfold by (intro exI[of _ s2]) simp
  next
    case True
    from loop_reaches_invariant[OF s1(1)] s1(3,4) less.prems(2)
    have len1: "length (pool s1) = min (?i + CONCURRENCY) (length ps)"
      by (simp add: loop_invariant_def)
    then have len1': "length (pool s1) = ?i + CONCURRENCY" using True by simp
    have a2: "awaiting s2" "position s2 = ?i + CONCURRENCY" "pushed s2 = pushed s @ rs"
      using True by (simp_all add: enter_def Let_def s2_def)
    have "pool s2 = pool s1 @ map (getDownloadCountForPlugin_async URL token)
               (slice ps (?i + CONCURRENCY) (?i + CONCURRENCY + CONCURRENCY))"
      using True by (simp add: enter_def Let_def s2_def)
    then have d2: "drop (position s2) (pool s2)
           = map (getDownloadCountForPlugin_async URL token)
               (slice ps (position s2) (position s2 + CONCURRENCY))"
      using len1' by (simp add: a2(2))
    have m: "length ps - position s2 < length ps - position s"
      using i a2(2) by (simp add: CONCURRENCY_def)
    from less.hyps[OF m r2 a2(1) d2, of tr1] obtain s' where
      "loop_reaches URL token ps s'" "\<not> awaiting s'"
      "pushed s' = fst (fetch_loop URL net token ps (position s2) (pushed s2) tr1)"
      by blast
    then show ?thesis using unfold a2 by (intro exI[of _ s']) simp
  qed
qed

theorem fetch_results_are_loop_results:
  "\<exists>s. loop_reaches URL token ps s \<and> \<not> awaiting s \<and> pushed s = fetch_results URL net token ps"
proof -
  let ?s0 = "enter URL token ps 0 \<lparr>position = 0, awaiting = False, pool = [], pushed = [], sent = []\<rparr>"
  have r0: "loop_reaches URL token ps ?s0" by (rule loop_reaches.loop_entry)
  show ?thesis
  proof (cases "0 < length ps")
    case False
    then have "\<not> awaiting ?s0" "pushed ?s0 = []" by (simp_all add: enter_def)
    moreover have "fetch_results URL net token ps = []"
      using False by (simp add: fetch_results_def) (subst fetch_loop.simps, simp)
    ultimately show ?thesis using r0 by (intro exI[of _ ?s0]) simp
  next
    case True
    then have a: "awaiting ?s0" and p: "position ?s0 = 0" "pushed ?s0 = []"
      by (simp_all add: enter_def Let_def)
    have d: "drop (position ?s0) (pool ?s0)
           = map (getDownloadCountForPlugin_async URL token)
               (slice ps (position ?s0) (position ?s0 + CONCURRENCY))"
      using True by (simp add: enter_def Let_def)
    from run_loop[OF r0 a d, of net "[]"] show ?thesis
      by (simp only: p fetch_results_def)
  qed
qed

text \<open>
  Claim C9: in every state of the batch loop at most \<open>CONCURRENCY = 5\<close> requests are
  out. The loop variable is a multiple of 5 and the tasks started are those of the plugins
  up to the end of the current slice of 5, one task per plugin; every task of an earlier
  batch has finished. A plugin whose task has not started, or whose URL does not resolve,
  has sent no request; any other has sent between one and \<open>RETRY_TIMES + 1\<close> requests,
  all for the releases of its repository. When the loop has exited, \<open>results\<close> holds
  one result per plugin, in order, and is what the batches run one task after another
  compute for some network.
\<close>

theorem batches_bound_requests:
  assumes "loop_reaches URL token ps s"
  shows "in_flight s \<le> CONCURRENCY \<and> CONCURRENCY = 5
       \<and> position s mod CONCURRENCY = 0
       \<and> length (pool s) = (if awaiting s then min (position s + CONCURRENCY) (length ps)
                             else length ps)
       \<and> list_all returned (take (position s) (pool s))
       \<and> (\<forall>k. length (pool s) \<le> k \<longrightarrow> requests_of k s = [])
       \<and> (\<forall>k<length (pool s).
             (extractGitHubRepo URL (map_of (ps ! k) ''downloadUrl'') = None \<longrightarrow>
                requests_of k s = [])
           \<and> (\<forall>info. extractGitHubRepo URL (map_of (ps ! k) ''downloadUrl'') = Some info \<longrightarrow>
                  set (requests_of k s) = {releases_request (owner info) (repo info) token}
                  \<and> length (requests_of k s) \<le> RETRY_TIMES + 1))
       \<and> (\<not> awaiting s \<longrightarrow>
             map plugin (pushed s) = [0..<length ps]
             \<and> (\<exists>net. pushed s = fetch_results URL net token ps))"
proof -
  note inv = loop_reaches_invariant[OF assms, unfolded loop_invariant_def]
  note tasks = loop_reaches_tasks[OF assms, unfolded tasks_invariant_def]
  have c1: "in_flight s \<le> CONCURRENCY" by (rule in_flight_bound[OF assms])
  have c2: "CONCURRENCY = 5" by (simp add: CONCURRENCY_def)
  have c3: "position s mod CONCURRENCY = 0" using inv by simp
  have c4: "length (pool s) = (if awaiting s then min (position s + CONCURRENCY) (length ps)
                             else length ps)"
    using inv by (simp split: if_splits)
  have c5: "list_all returned (take (position s) (pool s))" using inv by simp
  have c6: "\<forall>k. length (pool s) \<le> k \<longrightarrow> requests_of k s = []" using tasks by simp
  have c7: "(extractGitHubRepo URL (map_of (ps ! k) ''downloadUrl'') = None \<longrightarrow>
                requests_of k s = [])
           \<and> (\<forall>info. extractGitHubRepo URL (map_of (ps ! k) ''downloadUrl'') = Some info \<longrightarrow>
                  set (requests_of k s) = {releases_request (owner info) (repo info) token}
                  \<and> length (requests_of k s) \<le> RETRY_TIMES + 1)"
    if "k < length (pool s)" for k
  proof -
    from tasks that obtain fs where
      "trail (getDownloadCountForPlugin_async URL token (k, ps ! k)) fs (requests_of k s) (pool s ! k)"
      by blast
    from task_requests[OF this] show ?thesis by blast
  qed
  have c8: "map plugin (pushed s) = [0..<length ps]
             \<and> (\<exists>net. pushed s = fetch_results URL net token ps)"
    if "\<not> awaiting s"
    using loop_exit_results[OF assms that] loop_results_are_fetch_results[OF assms that] by blast
  from c1 c2 c3 c4 c5 c6 c7 c8 show ?thesis by blast
qed

theorem batches_bound_requests_witness:
  "loop_reaches example_URL None busy_plugins
     (enter example_URL None busy_plugins 0
        \<lparr>position = 0, awaiting = False, pool = [], pushed = [], sent = []\<rparr>)
   \<and> in_flight (enter example_URL None busy_plugins 0
        \<lparr>position = 0, awaiting = False, pool = [], pushed = [], sent = []\<rparr>) = 5
   \<and> in_flight (enter example_URL None busy_plugins 0
        \<lparr>position = 0, awaiting = False, pool = [], pushed = [], sent = []\<rparr>) \<le> CONCURRENCY
   \<and> requests_of 0 (enter example_URL None busy_plugins 0
        \<lparr>position = 0, awaiting = False, pool = [], pushed = [], sent = []\<rparr>)
        = [releases_request ''o'' ''r'' None]
   \<and> requests_of 5 (enter example_URL None busy_plugins 0
        \<lparr>position = 0, awaiting = False, pool = [], pushed = [], sent = []\<rparr>) = []
   \<and> (\<exists>s. loop_reaches example_URL None busy_plugins s \<and> \<not> awaiting s
          \<and> in_flight s \<le> 5
          \<and> length (pool s) = 6
          \<and> set (requests_of 5 s) = {releases_request ''o'' ''r'' None}
          \<and> length (requests_of 5 s) \<le> 3
          \<and> map plugin (pushed s) = [0, 1, 2, 3, 4, 5]
          \<and> pushed s = fetch_results example_URL example_net None busy_plugins)"
proof -
  let ?s0 = "enter example_URL None busy_plugins 0
        \<lparr>position = 0, awaiting = False, pool = [], pushed = [], sent = []\<rparr>"
  have x: "extractGitHubRepo example_URL (map_of (busy_plugins ! 5) ''downloadUrl'')
             = Some \<lparr>owner = ''o'', repo = ''r''\<rparr>"
    by code_simp
  have r: "loop_reaches example_URL None busy_plugins ?s0" by (rule loop_entry)
  have n: "in_flight ?s0 = 5"
    by (simp add: in_flight_def enter_def Let_def busy_plugins_def slice_def CONCURRENCY_def
          getDownloadCountForPlugin_async_def extractGitHubRepo_def example_URL_def
          fetchGitHubReleases_async_def upt_rec[of 0] upt_rec[of 1] upt_rec[of 2] upt_rec[of 3]
          upt_rec[of 4] upt_rec[of 5])
  have q: "requests_of 0 ?s0 = [releases_request ''o'' ''r'' None]"
    by (simp add: requests_of_def enter_def Let_def busy_plugins_def slice_def CONCURRENCY_def
          getDownloadCountForPlugin_async_def extractGitHubRepo_def example_URL_def
          fetchGitHubReleases_async_def issued_def RETRY_TIMES_def numeral_2_eq_2
          upt_rec[of 0] upt_rec[of 1] upt_rec[of 2] upt_rec[of 3] upt_rec[of 4] upt_rec[of 5])
  have l: "length (pool ?s0) \<le> 5"
    by (simp add: enter_def Let_def slice_def CONCURRENCY_def)
  from batches_bound_requests[OF r] l
  have first: "in_flight ?s0 \<le> CONCURRENCY" "requests_of 5 ?s0 = []" by blast+
  obtain s where s: "loop_reaches example_URL None busy_plugins s" "\<not> awaiting s"
      "pushed s = fetch_results example_URL example_net None busy_plugins"
    using fetch_results_are_loop_results[of example_URL None busy_plugins example_net] by blast
  have six: "length busy_plugins = 6" by (simp add: busy_plugins_def)
  have upt: "[0..<6] = [0, 1, 2, 3, 4, 5::nat]" by code_simp
  note b = batches_bound_requests[OF s(1)]
  from b have "in_flight s \<le> 5" by (simp add: CONCURRENCY_def)
  moreover from b s(2) six have len: "length (pool s) = 6" by simp
  moreover from b len x
  have "set (requests_of 5 s) = {releases_request ''o'' ''r'' None} \<and> length (requests_of 5 s) \<le> 3"
    by (simp add: RETRY_TIMES_def)
  moreover from b s(2) six upt have "map plugin (pushed s) = [0, 1, 2, 3, 4, 5]" by simp
  ultimately have last: "\<exists>s. loop_reaches example_URL None busy_plugins s \<and> \<not> awaiting s
          \<and> in_flight s \<le> 5
          \<and> length (pool s) = 6
          \<and> set (requests_of 5 s) = {releases_request ''o'' ''r'' None}
          \<and> length (requests_of 5 s) \<le> 3
          \<and> map plugin (pushed s) = [0, 1, 2, 3, 4, 5]
          \<and> pushed s = fetch_results example_URL example_net None busy_plugins"
    using s by - (rule exI[of _ s], simp)
  from r n first q last show ?thesis by simp
qed

end
